theory Spec2Isabelle
  imports Main "HOL-Library.Multiset"
begin

section \<open>The document tree\<close>

text \<open>
  The reconciliation engine of \<^verbatim>\<open>src/assets/main.js\<close> (\<^verbatim>\<open>theme.hideAndRemove\<close>,
  \<^verbatim>\<open>theme.insertAndReveal\<close>, \<^verbatim>\<open>theme.mergeNodes\<close>) works on DOM nodes by reference.
  An element is modelled with an identity (a natural number), its local name, its
  attribute list in \<^verbatim>\<open>getAttributeNames\<close> order and its child nodes. Text nodes
  carry no identity: the code never holds a reference to one.

  \<^verbatim>\<open>classList\<close>, \<^verbatim>\<open>className\<close>, \<^verbatim>\<open>dataset\<close>, \<^verbatim>\<open>style\<close> and the \<^verbatim>\<open>disabled\<close>
  property are views of the attributes \<^verbatim>\<open>class\<close>, \<^verbatim>\<open>data-*\<close>, \<^verbatim>\<open>style\<close> and
  \<^verbatim>\<open>disabled\<close>, as in the DOM.
\<close>

type_synonym attributes = "(string \<times> string) list"

datatype node =
    Elem (eid: nat) (tag: string) (attrs: attributes) (kids: "node list")
  | Text string
where
  "eid (Text s) = 0"
| "tag (Text s) = []"
| "attrs (Text s) = []"
| "kids (Text s) = []"

fun has_id :: "nat \<Rightarrow> node \<Rightarrow> bool" where
  "has_id i (Elem j t a ks) = (i = j)"
| "has_id i (Text s) = False"

text \<open>An element followed by its element descendants, in document order.\<close>

fun elements :: "node \<Rightarrow> node list" where
  "elements (Text s) = []"
| "elements (Elem i t a ks) = Elem i t a ks # concat (map elements ks)"

definition descendants :: "node \<Rightarrow> node list" where
  "descendants n = concat (map elements (kids n))"

text \<open>
  The state holds a forest: the live container, the parsed fragment and every subtree
  that was detached while a reference to it may still be held (the old children
  dropped by an \<^verbatim>\<open>innerHTML\<close> assignment, a wrapper after \<^verbatim>\<open>remove()\<close>).
\<close>

definition all_elements :: "node list \<Rightarrow> node list" where
  "all_elements f = concat (map elements f)"

definition find_node :: "nat \<Rightarrow> node list \<Rightarrow> node option" where
  "find_node i f = find (has_id i) (all_elements f)"

text \<open>\<^verbatim>\<open>parentNode\<close>: the element that has the node among its children, if any.\<close>

definition parent_of :: "nat \<Rightarrow> node list \<Rightarrow> node option" where
  "parent_of i f = find (\<lambda>p. list_ex (has_id i) (kids p)) (all_elements f)"

fun upd :: "nat \<Rightarrow> (node \<Rightarrow> node) \<Rightarrow> node \<Rightarrow> node" where
  "upd i f (Text s) = Text s"
| "upd i f (Elem j t a ks) =
     (if j = i then f (Elem j t a ks) else Elem j t a (map (upd i f) ks))"

fun prune :: "nat \<Rightarrow> node \<Rightarrow> node" where
  "prune i (Text s) = Text s"
| "prune i (Elem j t a ks) = Elem j t a (filter (\<lambda>k. \<not> has_id i k) (map (prune i) ks))"

text \<open>Taking a node out of wherever it is (its subtree goes with it).\<close>

definition detach :: "nat \<Rightarrow> node list \<Rightarrow> node list" where
  "detach i f = filter (\<lambda>k. \<not> has_id i k) (map (prune i) f)"

fun ins_before :: "nat \<Rightarrow> node \<Rightarrow> node \<Rightarrow> node" where
  "ins_before r n (Text s) = Text s"
| "ins_before r n (Elem j t a ks) =
     Elem j t a (concat (map (\<lambda>k. if has_id r k then [n, k] else [ins_before r n k]) ks))"

text \<open>A root has no parent, so nothing is ever placed before a root.\<close>

definition place_before :: "nat \<Rightarrow> node \<Rightarrow> node list \<Rightarrow> node list" where
  "place_before r n f = map (ins_before r n) f"

fun add_first :: "node \<Rightarrow> node \<Rightarrow> node" where
  "add_first n (Elem j t a ks) = Elem j t a (n # ks)"
| "add_first n (Text s) = Text s"

fun add_last :: "node \<Rightarrow> node \<Rightarrow> node" where
  "add_last n (Elem j t a ks) = Elem j t a (ks @ [n])"
| "add_last n (Text s) = Text s"

fun set_kids :: "node list \<Rightarrow> node \<Rightarrow> node" where
  "set_kids ks' (Elem j t a ks) = Elem j t a ks'"
| "set_kids ks' (Text s) = Text s"

definition place_first :: "nat \<Rightarrow> node \<Rightarrow> node list \<Rightarrow> node list" where
  "place_first p n f = map (upd p (add_first n)) f"

definition place_last :: "nat \<Rightarrow> node \<Rightarrow> node list \<Rightarrow> node list" where
  "place_last p n f = map (upd p (add_last n)) f"

subsection \<open>Attributes\<close>

definition getAttribute :: "node \<Rightarrow> string \<Rightarrow> string option" where
  "getAttribute n k = map_of (attrs n) k"

text \<open>\<^verbatim>\<open>setAttribute\<close> overwrites in place or appends.\<close>

fun put_attr :: "string \<Rightarrow> string \<Rightarrow> attributes \<Rightarrow> attributes" where
  "put_attr k v [] = [(k, v)]"
| "put_attr k v ((k', v') # r) = (if k' = k then (k, v) # r else (k', v') # put_attr k v r)"

fun set_attr :: "string \<Rightarrow> string \<Rightarrow> node \<Rightarrow> node" where
  "set_attr k v (Elem j t a ks) = Elem j t (put_attr k v a) ks"
| "set_attr k v (Text s) = Text s"

text \<open>JavaScript truthiness of a \<^verbatim>\<open>dataset\<close> entry: \<^verbatim>\<open>undefined\<close> and \<^verbatim>\<open>""\<close> are falsy.\<close>

fun truthy :: "string option \<Rightarrow> bool" where
  "truthy None = False"
| "truthy (Some v) = (v \<noteq> [])"

text \<open>Conversion to a string, in a template literal and in a \<^verbatim>\<open>dataset\<close> assignment.\<close>

fun to_string :: "string option \<Rightarrow> string" where
  "to_string None = ''undefined''"
| "to_string (Some v) = v"

definition mergeCache :: "node \<Rightarrow> string option" where
  "mergeCache n = getAttribute n ''data-merge-cache''"

subsection \<open>Class tokens\<close>

definition is_ws :: "char \<Rightarrow> bool" where
  "is_ws c = (c = CHR 0x20 \<or> c = CHR 0x09 \<or> c = CHR 0x0A \<or> c = CHR 0x0C \<or> c = CHR 0x0D)"

fun split_ws :: "string \<Rightarrow> string \<Rightarrow> string list" where
  "split_ws acc [] = (if acc = [] then [] else [acc])"
| "split_ws acc (c # cs) =
     (if is_ws c then (if acc = [] then split_ws [] cs else acc # split_ws [] cs)
      else split_ws (acc @ [c]) cs)"

fun ordered_set :: "string list \<Rightarrow> string list \<Rightarrow> string list" where
  "ordered_set seen [] = []"
| "ordered_set seen (t # ts) =
     (if t \<in> set seen then ordered_set seen ts else t # ordered_set (t # seen) ts)"

fun join_ws :: "string list \<Rightarrow> string" where
  "join_ws [] = []"
| "join_ws [t] = t"
| "join_ws (t # u # ts) = t @ CHR 0x20 # join_ws (u # ts)"

definition classList :: "node \<Rightarrow> string list" where
  "classList n =
     ordered_set [] (split_ws [] (case getAttribute n ''class'' of None \<Rightarrow> [] | Some v \<Rightarrow> v))"

text \<open>
  \<^verbatim>\<open>classList.add\<close> and \<^verbatim>\<open>classList.remove\<close> change the token set and then write its
  serialisation back to the \<^verbatim>\<open>class\<close> attribute, unless the attribute is absent and
  the set is empty.
\<close>

definition class_update :: "string list \<Rightarrow> node \<Rightarrow> node" where
  "class_update ts n =
     (if getAttribute n ''class'' = None \<and> ts = [] then n else set_attr ''class'' (join_ws ts) n)"

definition classList_add :: "string \<Rightarrow> node \<Rightarrow> node" where
  "classList_add t n =
     class_update (if t \<in> set (classList n) then classList n else classList n @ [t]) n"

definition classList_remove :: "string list \<Rightarrow> node \<Rightarrow> node" where
  "classList_remove ts n = class_update (filter (\<lambda>t. t \<notin> set ts) (classList n)) n"

subsection \<open>Serialised markup\<close>

text \<open>
  \<^verbatim>\<open>innerHTML\<close> reads the children as markup, which has no node identity, and
  assigning it builds new nodes from the markup. Parsing the serialisation of a
  subtree is taken to give back the same tags, attributes and text.
\<close>

datatype html = HElem string attributes "html list" | HText string

fun serialize :: "node \<Rightarrow> html" where
  "serialize (Text s) = HText s"
| "serialize (Elem i t a ks) = HElem t a (map serialize ks)"

definition innerHTML :: "node \<Rightarrow> html list" where
  "innerHTML n = map serialize (kids n)"

fun parse :: "html \<Rightarrow> nat \<Rightarrow> node \<times> nat"
  and parse_list :: "html list \<Rightarrow> nat \<Rightarrow> node list \<times> nat" where
  "parse (HText s) k = (Text s, k)"
| "parse (HElem t a hs) k = (case parse_list hs (Suc k) of (ks, k') \<Rightarrow> (Elem k t a ks, k'))"
| "parse_list [] k = ([], k)"
| "parse_list (h # hs) k =
     (case parse h k of (n, k1) \<Rightarrow> (case parse_list hs k1 of (ns, k2) \<Rightarrow> (n # ns, k2)))"

section \<open>The page state and the platform\<close>

text \<open>
  The callbacks that \<^verbatim>\<open>hideAndRemove\<close> and \<^verbatim>\<open>insertAndReveal\<close> hand to
  \<^verbatim>\<open>setTimeout\<close>, outermost first. Each carries the variables its closure captured.
  A duration is \<open>None\<close> when the number is \<^verbatim>\<open>NaN\<close>.
\<close>

datatype task =
    RemoveFade nat "nat option" "nat option"
  | RemoveSlide nat "nat option"
  | RemoveDetach nat
  | RevealSlide nat "nat option" "nat option"
  | RevealFade nat "nat option"
  | RevealTidy nat

record dom =
  roots :: "node list"
  fresh :: nat
  now :: nat
  timers :: "(nat \<times> task) list"
  reloads :: nat

text \<open>
  What the code reads from layout and from the computed style is an input of the model:
  \<^verbatim>\<open>clientHeight\<close> of an element, the two durations
  \<^verbatim>\<open>parseFloat(cs.getPropertyValue('--fade-duration')) * 1000\<close> and
  \<^verbatim>\<open>parseFloat(cs.getPropertyValue('--slide-duration')) * 1000\<close> of an element
  (\<open>None\<close> for \<^verbatim>\<open>NaN\<close>, which is what \<^verbatim>\<open>parseFloat\<close> gives for a missing property),
  and the text of the \<^verbatim>\<open>style\<close> attribute after \<^verbatim>\<open>style.height\<close> is assigned.
\<close>

record env =
  clientHeight :: "nat \<Rightarrow> nat"
  fadeDuration :: "nat \<Rightarrow> nat option"
  slideDuration :: "nat \<Rightarrow> nat option"
  styleHeight :: "string option \<Rightarrow> string \<Rightarrow> string"

text \<open>
  A thrown exception is a value, together with the state at the throw. \<open>OutsideModel\<close> is
  not an exception of the program: it marks an input on which the browser's behaviour is
  not modelled (see \<open>css_plain\<close> and \<open>plain_name\<close> below).
\<close>

datatype exn = TypeError | HierarchyRequestError | OutsideModel

datatype 'a result = Done 'a | Raised exn dom

definition node_at :: "dom \<Rightarrow> nat \<Rightarrow> node option" where
  "node_at s i = find_node i (roots s)"

definition modify :: "nat \<Rightarrow> (node \<Rightarrow> node) \<Rightarrow> dom \<Rightarrow> dom" where
  "modify i f s = s\<lparr>roots := map (upd i f) (roots s)\<rparr>"

definition setAttribute :: "nat \<Rightarrow> string \<Rightarrow> string \<Rightarrow> dom \<Rightarrow> dom" where
  "setAttribute i k v s = modify i (set_attr k v) s"

fun is_elem :: "node \<Rightarrow> bool" where
  "is_elem (Elem i t a ks) = True"
| "is_elem (Text s) = False"

text \<open>
  \<^verbatim>\<open>el.innerHTML = markup\<close>: the old children leave the tree (they stay in the forest as
  detached roots) and freshly built nodes take their place.
\<close>

definition set_innerHTML :: "nat \<Rightarrow> html list \<Rightarrow> dom \<Rightarrow> dom" where
  "set_innerHTML i hs s =
     (case node_at s i of
        None \<Rightarrow> s
      | Some n \<Rightarrow>
          (case parse_list hs (fresh s) of
             (ks, k) \<Rightarrow>
               s\<lparr>roots := map (upd i (set_kids ks)) (roots s) @ filter is_elem (kids n),
                 fresh := k\<rparr>))"

text \<open>\<^verbatim>\<open>document.createElement('div')\<close>: a new parentless element; its id is the old \<open>fresh\<close>.\<close>

definition createElement :: "string \<Rightarrow> dom \<Rightarrow> dom" where
  "createElement t s = s\<lparr>roots := roots s @ [Elem (fresh s) t [] []], fresh := Suc (fresh s)\<rparr>"

text \<open>Moving a node: it leaves its old place and enters the new one.\<close>

definition move_before :: "nat \<Rightarrow> nat \<Rightarrow> dom \<Rightarrow> dom" where
  "move_before r i s =
     (case node_at s i of None \<Rightarrow> s
      | Some n \<Rightarrow> s\<lparr>roots := place_before r n (detach i (roots s))\<rparr>)"

definition move_first :: "nat \<Rightarrow> nat \<Rightarrow> dom \<Rightarrow> dom" where
  "move_first p i s =
     (case node_at s i of None \<Rightarrow> s
      | Some n \<Rightarrow> s\<lparr>roots := place_first p n (detach i (roots s))\<rparr>)"

definition move_last :: "nat \<Rightarrow> nat \<Rightarrow> dom \<Rightarrow> dom" where
  "move_last p i s =
     (case node_at s i of None \<Rightarrow> s
      | Some n \<Rightarrow> s\<lparr>roots := place_last p n (detach i (roots s))\<rparr>)"

text \<open>\<^verbatim>\<open>node.remove()\<close>: a node with a parent becomes a detached root.\<close>

definition remove_node :: "nat \<Rightarrow> dom \<Rightarrow> dom" where
  "remove_node i s =
     (case node_at s i of None \<Rightarrow> s
      | Some n \<Rightarrow>
          (case parent_of i (roots s) of None \<Rightarrow> s
           | Some p \<Rightarrow> s\<lparr>roots := detach i (roots s) @ [n]\<rparr>))"

text \<open>
  \<^verbatim>\<open>target.insertAdjacentElement(cmd, el)\<close> for the three positions the code uses.
  \<^verbatim>\<open>'beforebegin'\<close> on a target without a parent inserts nothing and returns
  \<^verbatim>\<open>null\<close>; inserting an element into its own subtree throws.
\<close>

datatype position = AfterBegin | BeforeEnd | BeforeBegin

definition insertAdjacentElement :: "position \<Rightarrow> nat \<Rightarrow> nat \<Rightarrow> dom \<Rightarrow> dom result" where
  "insertAdjacentElement cmd target el s =
     (case node_at s el of
        None \<Rightarrow> Raised OutsideModel s
      | Some e \<Rightarrow>
          (case cmd of
             AfterBegin \<Rightarrow>
               if list_ex (has_id target) (elements e) then Raised HierarchyRequestError s
               else Done (move_first target el s)
           | BeforeEnd \<Rightarrow>
               if list_ex (has_id target) (elements e) then Raised HierarchyRequestError s
               else Done (move_last target el s)
           | BeforeBegin \<Rightarrow>
               (case parent_of target (roots s) of
                  None \<Rightarrow> Done s
                | Some p \<Rightarrow>
                    if list_ex (has_id (eid p)) (elements e) then Raised HierarchyRequestError s
                    else if target = el then Done s
                    else Done (move_before target el s))))"

text \<open>\<^verbatim>\<open>el.style.height = v\<close>: the \<^verbatim>\<open>style\<close> attribute is rewritten by the platform.\<close>

definition style_height :: "env \<Rightarrow> nat \<Rightarrow> string \<Rightarrow> dom \<Rightarrow> dom" where
  "style_height env i v s =
     modify i (\<lambda>n. set_attr ''style'' (styleHeight env (getAttribute n ''style'') v) n) s"

text \<open>
  \<^verbatim>\<open>setTimeout(callback, delay)\<close>: the delay is converted to an integer, and \<^verbatim>\<open>NaN\<close>
  converts to 0. The timer is due \<open>delay\<close> milliseconds from now.
\<close>

fun timeout_ms :: "nat option \<Rightarrow> nat" where
  "timeout_ms None = 0"
| "timeout_ms (Some d) = d"

definition setTimeout :: "task \<Rightarrow> nat option \<Rightarrow> dom \<Rightarrow> dom" where
  "setTimeout t delay s = s\<lparr>timers := timers s @ [(now s + timeout_ms delay, t)]\<rparr>"

text \<open>The text of \<^verbatim>\<open>`${n}px`\<close> for a non-negative integer \<open>n\<close>.\<close>

fun decimal :: "nat \<Rightarrow> string" where
  "decimal n = (if n < 10 then [char_of (48 + n)] else decimal (n div 10) @ [char_of (48 + n mod 10)])"

definition px :: "nat \<Rightarrow> string" where
  "px n = decimal n @ ''px''"

section \<open>Selectors\<close>

text \<open>
  \<^verbatim>\<open>root.querySelectorAll(sel)\<close> returns the descendants of \<open>root\<close> that match, in
  document order, as a static list of references; \<^verbatim>\<open>querySelector\<close> returns the first
  (here as the element it is at that moment; its \<open>eid\<close> is the reference).
\<close>

definition querySelectorAll :: "(node \<Rightarrow> bool) \<Rightarrow> nat \<Rightarrow> dom \<Rightarrow> nat list" where
  "querySelectorAll sel root s =
     (case node_at s root of None \<Rightarrow> [] | Some r \<Rightarrow> map eid (filter sel (descendants r)))"

definition querySelector :: "(node \<Rightarrow> bool) \<Rightarrow> nat \<Rightarrow> dom \<Rightarrow> node option" where
  "querySelector sel root s =
     (case node_at s root of None \<Rightarrow> None | Some r \<Rightarrow> find sel (descendants r))"

definition has_attr :: "string \<Rightarrow> node \<Rightarrow> bool" where
  "has_attr k n = (getAttribute n k \<noteq> None)"

definition attr_is :: "string \<Rightarrow> string \<Rightarrow> node \<Rightarrow> bool" where
  "attr_is k v n = (getAttribute n k = Some v)"

text \<open>
  The code builds \<^verbatim>\<open>[data-merge="${key}"]\<close> by pasting the key between double quotes.
  For a key without a double quote, a backslash, a line break or a NUL character the
  selector text is the attribute test \<open>attr_is\<close>. Any other key is outside the model.
\<close>

definition css_plain :: "string \<Rightarrow> bool" where
  "css_plain k =
     list_all (\<lambda>c. c \<noteq> CHR 0x22 \<and> c \<noteq> CHR 0x5C \<and> c \<noteq> CHR 0x0A \<and> c \<noteq> CHR 0x0C
                   \<and> c \<noteq> CHR 0x0D \<and> c \<noteq> CHR 0x00) k"

text \<open>
  \<^verbatim>\<open>setAttribute\<close> validates the name; which names it rejects depends on the browser.
  Names made of lower-case letters, digits, \<^verbatim>\<open>-\<close>, \<^verbatim>\<open>_\<close>, \<^verbatim>\<open>.\<close> and \<^verbatim>\<open>:\<close> that do not
  start with a digit, \<^verbatim>\<open>-\<close> or \<^verbatim>\<open>.\<close> are accepted by all and stored as they are.
  Any other name is outside the model.
\<close>

definition name_start :: "char \<Rightarrow> bool" where
  "name_start c = ((97 \<le> (of_char c :: nat) \<and> (of_char c :: nat) \<le> 122) \<or> c = CHR ''_'' \<or> c = CHR '':'')"

definition name_char :: "char \<Rightarrow> bool" where
  "name_char c =
     (name_start c \<or> (48 \<le> (of_char c :: nat) \<and> (of_char c :: nat) \<le> 57) \<or> c = CHR ''-'' \<or> c = CHR ''.'')"

fun plain_name :: "string \<Rightarrow> bool" where
  "plain_name [] = False"
| "plain_name (c # cs) = (name_start c \<and> list_all name_char cs)"

text \<open>\<^verbatim>\<open>[data-merge-list-item]:not(.merge-remove-item)\<close>\<close>

definition live_item :: "node \<Rightarrow> bool" where
  "live_item n = (has_attr ''data-merge-list-item'' n \<and> ''merge-remove-item'' \<notin> set (classList n))"

definition is_input :: "node \<Rightarrow> bool" where
  "is_input n = (tag n = ''input'')"

section \<open>Animated detach and reveal\<close>

text \<open>\<^verbatim>\<open>el.querySelectorAll('input').forEach((input) => { input.disabled = true; })\<close>\<close>

definition disable_inputs :: "nat \<Rightarrow> dom \<Rightarrow> dom" where
  "disable_inputs el s =
     fold (\<lambda>input. setAttribute input ''disabled'' []) (querySelectorAll is_input el s) s"

text \<open>\<^verbatim>\<open>theme.hideAndRemove\<close> (lines 115 to 140).\<close>

definition hideAndRemove :: "env \<Rightarrow> nat \<Rightarrow> dom \<Rightarrow> dom result" where
  "hideAndRemove env el s0 =
     (case node_at s0 el of
        None \<Rightarrow> Raised OutsideModel s0
      | Some e \<Rightarrow>
          (let s1 = disable_inputs el s0;
               wrapper = fresh s1;
               s2 = setAttribute wrapper ''class'' ''merge-remove-wrapper'' (createElement ''div'' s1)
           in case parent_of el (roots s2) of
                None \<Rightarrow> Raised TypeError s2
              | Some p \<Rightarrow>
                  (let s3 = move_before el wrapper s2;
                       s4 = move_last wrapper el s3;
                       s5 = modify el (classList_add ''merge-remove-item'') s4;
                       s6 = style_height env wrapper (px (clientHeight env wrapper)) s5
                   in Done (setTimeout
                              (RemoveFade wrapper (fadeDuration env el) (slideDuration env el))
                              (Some 10) s6))))"

text \<open>
  \<^verbatim>\<open>theme.insertAndReveal\<close> (lines 142 to 165). \<^verbatim>\<open>delay || 10\<close> is 10 for a zero delay.
  \<^verbatim>\<open>el.firstElementChild.clientHeight\<close> throws when \<open>el\<close> has no element child.
\<close>

definition insertAndReveal :: "env \<Rightarrow> nat \<Rightarrow> nat \<Rightarrow> position \<Rightarrow> nat \<Rightarrow> dom \<Rightarrow> dom result" where
  "insertAndReveal env el target iaeCmd delay s0 =
     (let initialDelay = (if delay = 0 then 10 else delay);
          s1 = modify el (classList_add ''merge-add-wrapper'') s0
      in case insertAdjacentElement iaeCmd target el s1 of
           Raised x s' \<Rightarrow> Raised x s'
         | Done s2 \<Rightarrow>
             (case node_at s2 el of
                None \<Rightarrow> Raised OutsideModel s2
              | Some e \<Rightarrow>
                  (case find is_elem (kids e) of
                     None \<Rightarrow> Raised TypeError s2
                   | Some firstElementChild \<Rightarrow>
                       (let s3 = style_height env el (px (clientHeight env (eid firstElementChild))) s2
                        in Done (setTimeout
                                   (RevealSlide el (fadeDuration env el) (slideDuration env el))
                                   (Some initialDelay) s3)))))"

text \<open>What each timer callback does when it runs.\<close>

fun run_task :: "env \<Rightarrow> task \<Rightarrow> dom \<Rightarrow> dom" where
  "run_task env (RemoveFade wrapper fd sd) s =
     setTimeout (RemoveSlide wrapper sd) fd
       (modify wrapper (classList_add ''merge-remove-wrapper--fade'') s)"
| "run_task env (RemoveSlide wrapper sd) s =
     setTimeout (RemoveDetach wrapper) sd
       (modify wrapper (classList_add ''merge-remove-wrapper--slide'') s)"
| "run_task env (RemoveDetach wrapper) s = remove_node wrapper s"
| "run_task env (RevealSlide el fd sd) s =
     setTimeout (RevealFade el fd) sd (modify el (classList_add ''merge-add-wrapper--slide'') s)"
| "run_task env (RevealFade el fd) s =
     setTimeout (RevealTidy el) fd (modify el (classList_add ''merge-add-wrapper--fade'') s)"
| "run_task env (RevealTidy el) s =
     modify el
       (classList_remove [''merge-add-wrapper'', ''merge-add-wrapper--slide'', ''merge-add-wrapper--fade''])
       (style_height env el [] s)"

text \<open>
  The event loop runs the timer that is due first; among timers due at the same time,
  the one registered first.
\<close>

fun earliest :: "(nat \<times> task) list \<Rightarrow> (nat \<times> task) option" where
  "earliest [] = None"
| "earliest ((d, t) # r) =
     (case earliest r of
        None \<Rightarrow> Some (d, t)
      | Some (d', t') \<Rightarrow> if d' < d then Some (d', t') else Some (d, t))"

definition fire :: "env \<Rightarrow> dom \<Rightarrow> dom option" where
  "fire env s =
     (case earliest (timers s) of
        None \<Rightarrow> None
      | Some (d, t) \<Rightarrow>
          Some (run_task env t (s\<lparr>timers := remove1 (d, t) (timers s), now := max (now s) d\<rparr>)))"

section \<open>The merge\<close>

fun forEach :: "(nat \<Rightarrow> dom \<Rightarrow> dom result) \<Rightarrow> nat list \<Rightarrow> dom \<Rightarrow> dom result" where
  "forEach f [] s = Done s"
| "forEach f (x # xs) s =
     (case f x s of Done s' \<Rightarrow> forEach f xs s' | Raised e s' \<Rightarrow> Raised e s')"

text \<open>
  The callback of the first pass (lines 170 to 180), for one \<^verbatim>\<open>newEl\<close>. A \<^verbatim>\<open>null\<close>
  \<^verbatim>\<open>targetEl\<close> throws at its first use, before anything is changed.
\<close>

definition mergeContent :: "nat \<Rightarrow> nat \<Rightarrow> dom \<Rightarrow> dom result" where
  "mergeContent targetContainer newEl s =
     (case node_at s newEl of
        None \<Rightarrow> Raised OutsideModel s
      | Some ne \<Rightarrow>
          (let key = to_string (getAttribute ne ''data-merge'') in
           if \<not> css_plain key then Raised OutsideModel s
           else case querySelector (attr_is ''data-merge'' key) targetContainer s of
                  None \<Rightarrow> Raised TypeError s
                | Some targetEl \<Rightarrow>
                    if \<not> truthy (mergeCache ne) \<or> \<not> truthy (mergeCache targetEl)
                       \<or> mergeCache ne \<noteq> mergeCache targetEl
                    then (let s1 = set_innerHTML (eid targetEl) (innerHTML ne) s in
                          Done (if truthy (mergeCache ne) \<or> truthy (mergeCache targetEl)
                                then setAttribute (eid targetEl) ''data-merge-cache''
                                       (to_string (mergeCache ne)) s1
                                else s1))
                    else Done s))"

text \<open>
  The callback of the second pass (lines 182 to 189). The names and values are those of
  \<^verbatim>\<open>newEl\<close> when the callback starts: the loop writes to \<^verbatim>\<open>targetEl\<close> only.
\<close>

fun copy_attributes :: "node option \<Rightarrow> node \<Rightarrow> string list \<Rightarrow> dom \<Rightarrow> dom result" where
  "copy_attributes targetEl ne [] s = Done s"
| "copy_attributes targetEl ne (attributeName # names) s =
     (case targetEl of
        None \<Rightarrow> Raised TypeError s
      | Some te \<Rightarrow>
          if \<not> plain_name attributeName then Raised OutsideModel s
          else copy_attributes targetEl ne names
                 (setAttribute (eid te) attributeName
                    (case getAttribute ne attributeName of None \<Rightarrow> ''null'' | Some v \<Rightarrow> v) s))"

definition mergeAttributes :: "nat \<Rightarrow> nat \<Rightarrow> dom \<Rightarrow> dom result" where
  "mergeAttributes targetContainer newEl s =
     (case node_at s newEl of
        None \<Rightarrow> Raised OutsideModel s
      | Some ne \<Rightarrow>
          (let key = to_string (getAttribute ne ''data-merge-attributes'') in
           if \<not> css_plain key then Raised OutsideModel s
           else copy_attributes
                  (querySelector (attr_is ''data-merge-attributes'' key) targetContainer s)
                  ne (map fst (attrs ne)) s))"

text \<open>\<^verbatim>\<open>item.dataset.mergeListItem\<close> of a referenced element, as it is now.\<close>

definition mergeListItem :: "dom \<Rightarrow> nat \<Rightarrow> string option" where
  "mergeListItem s i =
     (case node_at s i of None \<Rightarrow> None | Some n \<Rightarrow> getAttribute n ''data-merge-list-item'')"

text \<open>The callback of the removal loop (lines 197 to 203).\<close>

definition removeUnmatched :: "env \<Rightarrow> nat list \<Rightarrow> nat \<Rightarrow> dom \<Rightarrow> dom result" where
  "removeUnmatched env newListItems targetListItem s =
     (case find (\<lambda>item. mergeListItem s item = mergeListItem s targetListItem) newListItems of
        None \<Rightarrow> hideAndRemove env targetListItem s
      | Some matchedItem \<Rightarrow> Done s)"

text \<open>
  One round of the loop of lines 208 to 237: the new item with index \<open>i\<close>, against the
  tracked list \<open>targetListItems\<close>. It returns the tracked list for the next round.
\<close>

definition mergeItem ::
  "env \<Rightarrow> nat \<Rightarrow> nat \<Rightarrow> nat \<Rightarrow> nat list \<Rightarrow> dom \<Rightarrow> (nat list \<times> dom) result" where
  "mergeItem env targetList i newListItem targetListItems s =
     (case find (\<lambda>item. mergeListItem s item = mergeListItem s newListItem) targetListItems of
        Some matchedItem \<Rightarrow>
          (case (node_at s newListItem, node_at s matchedItem) of
             (Some ne, Some me) \<Rightarrow>
               if \<not> truthy (mergeCache ne) \<or> \<not> truthy (mergeCache me)
                  \<or> mergeCache ne \<noteq> mergeCache me
               then (let s1 = set_innerHTML matchedItem (innerHTML ne) s in
                     Done (targetListItems,
                           if truthy (mergeCache ne)
                           then setAttribute matchedItem ''data-merge-cache''
                                  (to_string (mergeCache ne)) s1
                           else s1))
               else Done (targetListItems, s)
           | _ \<Rightarrow> Raised OutsideModel s)
      | None \<Rightarrow>
          (case (if i = 0 then insertAndReveal env newListItem targetList AfterBegin 500 s
                 else if i \<ge> length targetListItems
                 then insertAndReveal env newListItem targetList BeforeEnd 500 s
                 else insertAndReveal env newListItem (targetListItems ! i) BeforeBegin 500 s) of
             Raised x s' \<Rightarrow> Raised x s'
           | Done s' \<Rightarrow>
               Done (take i targetListItems @ newListItem # drop i targetListItems, s')))"

fun mergeItems :: "env \<Rightarrow> nat \<Rightarrow> nat \<Rightarrow> nat list \<Rightarrow> nat list \<Rightarrow> dom \<Rightarrow> dom result" where
  "mergeItems env targetList i [] targetListItems s = Done s"
| "mergeItems env targetList i (newListItem # rest) targetListItems s =
     (case mergeItem env targetList i newListItem targetListItems s of
        Raised x s' \<Rightarrow> Raised x s'
      | Done (targetListItems', s') \<Rightarrow> mergeItems env targetList (Suc i) rest targetListItems' s')"

text \<open>The callback of the third pass (lines 191 to 238), for one \<^verbatim>\<open>newList\<close>.\<close>

definition mergeList :: "env \<Rightarrow> nat \<Rightarrow> nat \<Rightarrow> dom \<Rightarrow> dom result" where
  "mergeList env targetContainer newList s =
     (case node_at s newList of
        None \<Rightarrow> Raised OutsideModel s
      | Some nl \<Rightarrow>
          (let key = to_string (getAttribute nl ''data-merge-list'') in
           if \<not> css_plain key then Raised OutsideModel s
           else case querySelector (attr_is ''data-merge-list'' key) targetContainer s of
                  None \<Rightarrow> Raised TypeError s
                | Some tlist \<Rightarrow>
                    (let targetList = eid tlist;
                         targetListItems = querySelectorAll (has_attr ''data-merge-list-item'') targetList s;
                         newListItems = querySelectorAll (has_attr ''data-merge-list-item'') newList s
                     in case forEach (removeUnmatched env newListItems) targetListItems s of
                          Raised x s' \<Rightarrow> Raised x s'
                        | Done s1 \<Rightarrow>
                            mergeItems env targetList 0 newListItems
                              (querySelectorAll live_item targetList s1) s1)))"

text \<open>The body of the \<^verbatim>\<open>try\<close> block: the three passes, each over a list taken when it starts.\<close>

definition mergeBody :: "env \<Rightarrow> nat \<Rightarrow> nat \<Rightarrow> dom \<Rightarrow> dom result" where
  "mergeBody env newContent targetContainer s =
     (case forEach (mergeContent targetContainer)
             (querySelectorAll (has_attr ''data-merge'') newContent s) s of
        Raised x s' \<Rightarrow> Raised x s'
      | Done s1 \<Rightarrow>
          (case forEach (mergeAttributes targetContainer)
                  (querySelectorAll (has_attr ''data-merge-attributes'') newContent s1) s1 of
             Raised x s' \<Rightarrow> Raised x s'
           | Done s2 \<Rightarrow>
               forEach (mergeList env targetContainer)
                 (querySelectorAll (has_attr ''data-merge-list'') newContent s2) s2))"

text \<open>\<^verbatim>\<open>window.location.reload()\<close> is counted.\<close>

definition reload :: "dom \<Rightarrow> dom" where
  "reload s = s\<lparr>reloads := Suc (reloads s)\<rparr>"

text \<open>
  \<^verbatim>\<open>theme.mergeNodes\<close> (lines 167 to 242): the \<^verbatim>\<open>catch\<close> clause turns every exception of
  the body into a reload. The result is \<open>None\<close> on an input outside the model.
\<close>

definition mergeNodes :: "env \<Rightarrow> nat \<Rightarrow> nat \<Rightarrow> dom \<Rightarrow> dom option" where
  "mergeNodes env newContent targetContainer s =
     (case mergeBody env newContent targetContainer s of
        Done s' \<Rightarrow> Some s'
      | Raised OutsideModel s' \<Rightarrow> None
      | Raised ex s' \<Rightarrow> Some (reload s'))"

section \<open>Well-formed states and example pages\<close>

text \<open>In a DOM every element is one object: no identity occurs twice, and \<open>fresh\<close> is unused.\<close>

definition distinct_ids :: "node list \<Rightarrow> bool" where
  "distinct_ids f = distinct (map eid (all_elements f))"

definition forest_ids :: "node list \<Rightarrow> nat list" where
  "forest_ids f = map eid (all_elements f)"

text \<open>The child list that \<open>ins_before\<close> builds.\<close>

definition ins_kids :: "nat \<Rightarrow> node \<Rightarrow> node list \<Rightarrow> node list" where
  "ins_kids r n ks = concat (map (\<lambda>k. if has_id r k then [n, k] else [ins_before r n k]) ks)"

text \<open>The identities of the elements that have a parent.\<close>

definition inner_ids :: "node list \<Rightarrow> nat list" where
  "inner_ids f = concat (map (\<lambda>k. forest_ids (kids k)) f)"

text \<open>Functions on a node that touch its attributes only.\<close>

definition attr_only :: "(node \<Rightarrow> node) \<Rightarrow> bool" where
  "attr_only f = (\<forall>n. f n = (case n of Elem j t a ks \<Rightarrow> Elem j t (attrs (f n)) ks | Text s \<Rightarrow> Text s))"

definition well_formed :: "dom \<Rightarrow> bool" where
  "well_formed s = (distinct_ids (roots s) \<and> list_all (\<lambda>n. eid n < fresh s) (all_elements (roots s)))"

definition example_env :: env where
  "example_env =
     \<lparr>clientHeight = (\<lambda>i. 40), fadeDuration = (\<lambda>i. None), slideDuration = (\<lambda>i. None),
      styleHeight = (\<lambda>old v. if v = [] then [] else ''height: '' @ v @ '';'')\<rparr>"

text \<open>
  A page whose content-marked node and its new version both carry the empty cache token,
  with different content.
\<close>

definition empty_token_page :: dom where
  "empty_token_page =
     \<lparr>roots =
        [Elem 1 ''div'' []
           [Elem 2 ''div'' [(''data-merge'', ''a''), (''data-merge-cache'', [])] [Text ''old'']],
         Elem 10 ''div'' []
           [Elem 11 ''div'' [(''data-merge'', ''a''), (''data-merge-cache'', [])] [Text ''new'']]],
      fresh = 20, now = 0, timers = [], reloads = 0\<rparr>"

text \<open>
  A page whose content-marked node and its new version carry different tokens.
\<close>

definition changed_token_page :: dom where
  "changed_token_page =
     \<lparr>roots =
        [Elem 1 ''div'' []
           [Elem 2 ''div'' [(''data-merge'', ''a''), (''data-merge-cache'', ''t1'')] [Text ''old'']],
         Elem 10 ''div'' []
           [Elem 11 ''div'' [(''data-merge'', ''a''), (''data-merge-cache'', ''t2'')] [Text ''new'']]],
      fresh = 20, now = 0, timers = [], reloads = 0\<rparr>"

text \<open>
  A list whose live item carries the token \<^verbatim>\<open>t1\<close> and whose new version carries none.
\<close>

definition stale_token_page :: dom where
  "stale_token_page =
     \<lparr>roots =
        [Elem 1 ''div'' []
           [Elem 2 ''ul'' [(''data-merge-list'', ''l'')]
              [Elem 3 ''li'' [(''data-merge-list-item'', ''k''), (''data-merge-cache'', ''t1'')]
                 [Text ''old'']]],
         Elem 10 ''div'' []
           [Elem 11 ''ul'' [(''data-merge-list'', ''l'')]
              [Elem 12 ''li'' [(''data-merge-list-item'', ''k'')] [Text ''new'']]]],
      fresh = 20, now = 0, timers = [], reloads = 0\<rparr>"

text \<open>The same situation for a content-marked node.\<close>

definition stale_content_page :: dom where
  "stale_content_page =
     \<lparr>roots =
        [Elem 1 ''div'' []
           [Elem 3 ''div'' [(''data-merge'', ''k''), (''data-merge-cache'', ''t1'')] [Text ''old'']],
         Elem 10 ''div'' []
           [Elem 12 ''div'' [(''data-merge'', ''k'')] [Text ''new'']]],
      fresh = 20, now = 0, timers = [], reloads = 0\<rparr>"

text \<open>The state in which a call ended, whether it returned or threw.\<close>

fun final_dom :: "dom result \<Rightarrow> dom" where
  "final_dom (Done s) = s"
| "final_dom (Raised x s) = s"

text \<open>A fragment with a content marker that has no live counterpart.\<close>

definition missing_counterpart_page :: dom where
  "missing_counterpart_page =
     \<lparr>roots =
        [Elem 1 ''div'' []
           [Elem 2 ''div'' [(''data-merge'', ''a''), (''data-merge-cache'', ''t1'')] [Text ''old'']],
         Elem 10 ''div'' []
           [Elem 11 ''div'' [(''data-merge'', ''b''), (''data-merge-cache'', ''t2'')] [Text ''new'']]],
      fresh = 20, now = 0, timers = [], reloads = 0\<rparr>"

text \<open>An attribute-marked node and its new version.\<close>

definition attribute_page :: dom where
  "attribute_page =
     \<lparr>roots =
        [Elem 1 ''div'' []
           [Elem 2 ''a'' [(''data-merge-attributes'', ''link''), (''href'', ''/old''), (''title'', ''kept'')] []],
         Elem 10 ''div'' []
           [Elem 11 ''a'' [(''data-merge-attributes'', ''link''), (''href'', ''/new''), (''rel'', ''next'')] []]],
      fresh = 20, now = 0, timers = [], reloads = 0\<rparr>"

text \<open>Whether a call returned normally.\<close>

fun returned :: "'a result \<Rightarrow> bool" where
  "returned (Done r) = True"
| "returned (Raised x s) = False"

text \<open>
  Letting the event loop run up to \<open>n\<close> timers: the timers that ran, each with the time at
  which it was due, and the state afterwards.
\<close>

fun run :: "env \<Rightarrow> nat \<Rightarrow> dom \<Rightarrow> (nat \<times> task) list \<times> dom" where
  "run env 0 s = ([], s)"
| "run env (Suc n) s =
     (case earliest (timers s) of
        None \<Rightarrow> ([], s)
      | Some (d, t) \<Rightarrow>
          (case fire env s of
             None \<Rightarrow> ([], s)
           | Some s' \<Rightarrow> (case run env n s' of (fired, s'') \<Rightarrow> ((d, t) # fired, s''))))"

text \<open>The platform with both custom properties missing on every element.\<close>

definition missing_durations :: "env \<Rightarrow> env" where
  "missing_durations env = env\<lparr>fadeDuration := (\<lambda>i. None), slideDuration := (\<lambda>i. None)\<rparr>"

text \<open>
  A list with the items A, X, C on the page and A, B, C in the fragment: X is to be
  removed and B to be inserted before C. X holds an input and a button.
\<close>

definition list_page :: dom where
  "list_page =
     \<lparr>roots =
        [Elem 1 ''div'' []
           [Elem 2 ''ul'' [(''data-merge-list'', ''l'')]
              [Elem 3 ''li'' [(''data-merge-list-item'', ''A''), (''data-merge-cache'', ''1'')] [Text ''a''],
               Elem 4 ''li'' [(''data-merge-list-item'', ''X''), (''data-merge-cache'', ''1'')]
                 [Elem 7 ''input'' [(''name'', ''qty'')] [], Elem 8 ''button'' [] [Text ''remove'']],
               Elem 5 ''li'' [(''data-merge-list-item'', ''C''), (''data-merge-cache'', ''1'')] [Text ''c'']]],
         Elem 10 ''div'' []
           [Elem 11 ''ul'' [(''data-merge-list'', ''l'')]
              [Elem 12 ''li'' [(''data-merge-list-item'', ''A''), (''data-merge-cache'', ''1'')] [Text ''a''],
               Elem 13 ''li'' [(''data-merge-list-item'', ''B''), (''data-merge-cache'', ''1'')]
                 [Elem 15 ''span'' [] [Text ''b'']],
               Elem 14 ''li'' [(''data-merge-list-item'', ''C''), (''data-merge-cache'', ''1'')] [Text ''c'']]]],
      fresh = 20, now = 0, timers = [], reloads = 0\<rparr>"

text \<open>Observations of the tree, for stating where an inserted element ends up.\<close>

fun adjacent :: "nat \<Rightarrow> nat \<Rightarrow> node list \<Rightarrow> bool" where
  "adjacent a b (k1 # k2 # ks) = ((has_id a k1 \<and> has_id b k2) \<or> adjacent a b (k2 # ks))"
| "adjacent a b [k] = False"
| "adjacent a b [] = False"

text \<open>\<open>a\<close> is the first child node of \<open>p\<close>.\<close>

definition first_child :: "dom \<Rightarrow> nat \<Rightarrow> nat \<Rightarrow> bool" where
  "first_child s p a =
     (case node_at s p of Some n \<Rightarrow> (case kids n of k # ks \<Rightarrow> has_id a k | [] \<Rightarrow> False) | None \<Rightarrow> False)"

text \<open>\<open>a\<close> is the last child node of \<open>p\<close>.\<close>

definition last_child :: "dom \<Rightarrow> nat \<Rightarrow> nat \<Rightarrow> bool" where
  "last_child s p a =
     (case node_at s p of Some n \<Rightarrow> kids n \<noteq> [] \<and> has_id a (last (kids n)) | None \<Rightarrow> False)"

text \<open>\<open>a\<close> is the previous sibling of \<open>b\<close>: they are neighbours under the parent of \<open>b\<close>.\<close>

definition previous_sibling :: "dom \<Rightarrow> nat \<Rightarrow> nat \<Rightarrow> bool" where
  "previous_sibling s a b =
     (case parent_of b (roots s) of Some p \<Rightarrow> adjacent a b (kids p) | None \<Rightarrow> False)"

text \<open>The page has the items A and C, the fragment has A, B and C.\<close>

definition insert_middle_page :: dom where
  "insert_middle_page =
     \<lparr>roots =
        [Elem 1 ''div'' []
           [Elem 2 ''ul'' [(''data-merge-list'', ''l'')]
              [Elem 3 ''li'' [(''data-merge-list-item'', ''A''), (''data-merge-cache'', ''1'')] [Text ''a''],
               Elem 5 ''li'' [(''data-merge-list-item'', ''C''), (''data-merge-cache'', ''1'')] [Text ''c'']]],
         Elem 10 ''div'' []
           [Elem 11 ''ul'' [(''data-merge-list'', ''l'')]
              [Elem 12 ''li'' [(''data-merge-list-item'', ''A''), (''data-merge-cache'', ''1'')] [Text ''a''],
               Elem 13 ''li'' [(''data-merge-list-item'', ''B''), (''data-merge-cache'', ''1'')]
                 [Elem 15 ''span'' [] [Text ''b'']],
               Elem 14 ''li'' [(''data-merge-list-item'', ''C''), (''data-merge-cache'', ''1'')] [Text ''c'']]]],
      fresh = 20, now = 0, timers = [], reloads = 0\<rparr>"

text \<open>The same, with a new item B that holds text only.\<close>

definition childless_item_page :: dom where
  "childless_item_page =
     \<lparr>roots =
        [Elem 1 ''div'' []
           [Elem 2 ''ul'' [(''data-merge-list'', ''l'')]
              [Elem 3 ''li'' [(''data-merge-list-item'', ''A''), (''data-merge-cache'', ''1'')] [Text ''a''],
               Elem 5 ''li'' [(''data-merge-list-item'', ''C''), (''data-merge-cache'', ''1'')] [Text ''c'']]],
         Elem 10 ''div'' []
           [Elem 11 ''ul'' [(''data-merge-list'', ''l'')]
              [Elem 12 ''li'' [(''data-merge-list-item'', ''A''), (''data-merge-cache'', ''1'')] [Text ''a''],
               Elem 13 ''li'' [(''data-merge-list-item'', ''B''), (''data-merge-cache'', ''1'')] [Text ''b''],
               Elem 14 ''li'' [(''data-merge-list-item'', ''C''), (''data-merge-cache'', ''1'')] [Text ''c'']]]],
      fresh = 20, now = 0, timers = [], reloads = 0\<rparr>"

text \<open>The identities of the roots of the forest.\<close>

definition root_ids :: "node list \<Rightarrow> nat list" where
  "root_ids f = map eid (filter is_elem f)"

text \<open>Tag and attributes of a referenced element, and one attribute of it.\<close>

definition top_at :: "dom \<Rightarrow> nat \<Rightarrow> (string \<times> attributes) option" where
  "top_at s j = map_option (\<lambda>n. (tag n, attrs n)) (node_at s j)"

definition attr_at :: "dom \<Rightarrow> nat \<Rightarrow> string \<Rightarrow> string option" where
  "attr_at s j k = (case node_at s j of None \<Rightarrow> None | Some n \<Rightarrow> getAttribute n k)"

text \<open>An element that \<^verbatim>\<open>hideAndRemove\<close> has marked: it carries the class \<^verbatim>\<open>merge-remove-item\<close>.\<close>

definition removing :: "dom \<Rightarrow> nat \<Rightarrow> bool" where
  "removing s j =
     (case node_at s j of None \<Rightarrow> False | Some n \<Rightarrow> ''merge-remove-item'' \<in> set (classList n))"

text \<open>Form controls that take a \<^verbatim>\<open>disabled\<close> attribute and do not carry it.\<close>

definition enabled_control :: "node \<Rightarrow> bool" where
  "enabled_control n =
     (tag n \<in> set [''button'', ''input'', ''select'', ''textarea''] \<and> \<not> has_attr ''disabled'' n)"

text \<open>The keys of the markers of one kind below a node, in document order.\<close>

definition marker_keys :: "string \<Rightarrow> node \<Rightarrow> string option list" where
  "marker_keys k n = map (\<lambda>m. getAttribute m k) (filter (has_attr k) (descendants n))"

text \<open>
  A fragment in which no two markers of a kind share a key, no two items of a list share
  a key, every content-marked node and every list item carries a non-empty cache token,
  and no list item is being removed. The keys and attribute names are those the model
  covers.
\<close>

definition steady :: "node \<Rightarrow> bool" where
  "steady n =
     (distinct (marker_keys ''data-merge'' n) \<and>
      distinct (marker_keys ''data-merge-attributes'' n) \<and>
      distinct (marker_keys ''data-merge-list'' n) \<and>
      list_all (\<lambda>m.
          (has_attr ''data-merge'' m \<longrightarrow>
             truthy (mergeCache m) \<and> css_plain (to_string (getAttribute m ''data-merge''))) \<and>
          (has_attr ''data-merge-attributes'' m \<longrightarrow>
             css_plain (to_string (getAttribute m ''data-merge-attributes'')) \<and>
             list_all plain_name (map fst (attrs m))) \<and>
          (has_attr ''data-merge-list'' m \<longrightarrow>
             css_plain (to_string (getAttribute m ''data-merge-list'')) \<and>
             distinct (marker_keys ''data-merge-list-item'' m)) \<and>
          (has_attr ''data-merge-list-item'' m \<longrightarrow>
             truthy (mergeCache m) \<and> ''merge-remove-item'' \<notin> set (classList m)))
        (descendants n))"

text \<open>
  A page and a fragment with the same markup: a content marker, an attribute marker and
  a list of two items, every token non-empty.
\<close>

definition identical_page :: dom where
  "identical_page =
     \<lparr>roots =
        [Elem 1 ''div'' []
           [Elem 2 ''div'' [(''data-merge'', ''a''), (''data-merge-cache'', ''t1'')]
              [Elem 3 ''span'' [] [Text ''x'']],
            Elem 4 ''a'' [(''data-merge-attributes'', ''b''), (''href'', ''/cart'')] [],
            Elem 5 ''ul'' [(''data-merge-list'', ''l'')]
              [Elem 6 ''li'' [(''data-merge-list-item'', ''A''), (''data-merge-cache'', ''1'')] [Text ''a''],
               Elem 7 ''li'' [(''data-merge-list-item'', ''B''), (''data-merge-cache'', ''2'')] [Text ''b'']]],
         Elem 10 ''div'' []
           [Elem 11 ''div'' [(''data-merge'', ''a''), (''data-merge-cache'', ''t1'')]
              [Elem 12 ''span'' [] [Text ''x'']],
            Elem 13 ''a'' [(''data-merge-attributes'', ''b''), (''href'', ''/cart'')] [],
            Elem 14 ''ul'' [(''data-merge-list'', ''l'')]
              [Elem 15 ''li'' [(''data-merge-list-item'', ''A''), (''data-merge-cache'', ''1'')] [Text ''a''],
               Elem 16 ''li'' [(''data-merge-list-item'', ''B''), (''data-merge-cache'', ''2'')] [Text ''b'']]]],
      fresh = 20, now = 0, timers = [], reloads = 0\<rparr>"

text \<open>A page and a fragment with the same markup, the token of the content marker empty.\<close>

definition identical_empty_token_page :: dom where
  "identical_empty_token_page =
     \<lparr>roots =
        [Elem 1 ''div'' []
           [Elem 2 ''div'' [(''data-merge'', ''a''), (''data-merge-cache'', [])]
              [Elem 3 ''span'' [] [Text ''x'']]],
         Elem 10 ''div'' []
           [Elem 11 ''div'' [(''data-merge'', ''a''), (''data-merge-cache'', [])]
              [Elem 12 ''span'' [] [Text ''x'']]]],
      fresh = 20, now = 0, timers = [], reloads = 0\<rparr>"

section \<open>Facts about the tree operations\<close>

lemma find_append:
  "find P (xs @ ys) = (case find P xs of None \<Rightarrow> find P ys | Some x \<Rightarrow> Some x)"
  by (induction xs) auto

lemma find_map: "find P (map f xs) = map_option f (find (P \<circ> f) xs)"
  by (induction xs) auto

lemma find_concat_cong:
  "(\<And>k. k \<in> set ks \<Longrightarrow> find P (g k) = map_option f (find P (h k))) \<Longrightarrow>
   find P (concat (map g ks)) = map_option f (find P (concat (map h ks)))"
  by (induction ks) (auto simp: find_append split: option.splits)

lemma find_SomeD: "find P xs = Some x \<Longrightarrow> P x \<and> x \<in> set xs"
  by (induction xs) (auto split: if_splits)

lemma find_exists: "x \<in> set xs \<Longrightarrow> P x \<Longrightarrow> \<exists>y. find P xs = Some y"
  by (cases "find P xs") (auto simp: find_None_iff)

lemma elements_is_elem: "m \<in> set (elements n) \<Longrightarrow> is_elem m"
  by (induction n) auto

lemma has_id_eid: "is_elem n \<Longrightarrow> has_id i n = (eid n = i)"
  by (cases n) auto

lemma elements_self: "is_elem n \<Longrightarrow> n \<in> set (elements n)"
  by (cases n) auto

lemma elements_trans: "m \<in> set (elements n) \<Longrightarrow> set (elements m) \<subseteq> set (elements n)"
proof (induction n)
  case (Elem i t a ks)
  then show ?case by fastforce
qed simp

lemma descendants_subset: "set (descendants n) \<subseteq> set (elements n)"
  by (cases n) (auto simp: descendants_def)

lemma find_node_SomeD: "find_node i f = Some n \<Longrightarrow> n \<in> set (all_elements f) \<and> is_elem n \<and> eid n = i"
  unfolding find_node_def all_elements_def
  by (auto dest!: find_SomeD simp: elements_is_elem has_id_eid dest: elements_is_elem)

lemma descendant_in_forest:
  "find_node r f = Some rn \<Longrightarrow> m \<in> set (descendants rn) \<Longrightarrow> m \<in> set (all_elements f)"
  using elements_trans descendants_subset
  unfolding find_node_def all_elements_def
  by (fastforce dest!: find_SomeD)

lemma in_forest_found: "m \<in> set (all_elements f) \<Longrightarrow> \<exists>n. find_node (eid m) f = Some n"
  unfolding find_node_def all_elements_def
  by (rule find_exists[where x = m]) (auto simp: has_id_eid dest: elements_is_elem)

lemma find_elements_upd:
  assumes "\<And>m. has_id i m \<Longrightarrow> has_id i (f m)"
  shows "find (has_id i) (elements (upd i f n)) = map_option f (find (has_id i) (elements n))"
proof (induction n)
  case (Elem j t a ks)
  show ?case
  proof (cases "j = i")
    case True
    then have "has_id i (f (Elem j t a ks))" using assms by simp
    then show ?thesis using True by (cases "f (Elem j t a ks)") auto
  next
    case False
    have "find (has_id i) (concat (map (\<lambda>k. elements (upd i f k)) ks))
          = map_option f (find (has_id i) (concat (map elements ks)))"
      by (rule find_concat_cong) (rule Elem.IH)
    then show ?thesis using False by (simp add: comp_def)
  qed
qed simp

lemma find_node_upd:
  assumes "\<And>m. has_id i m \<Longrightarrow> has_id i (f m)"
  shows "find_node i (map (upd i f) F) = map_option f (find_node i F)"
  unfolding find_node_def all_elements_def
  using find_concat_cong[where g = "\<lambda>k. elements (upd i f k)" and h = elements and P = "has_id i" and f = f and ks = F]
    find_elements_upd[OF assms]
  by (simp add: comp_def)

lemma find_node_append: "find_node i F = Some n \<Longrightarrow> find_node i (F @ G) = Some n"
  unfolding find_node_def all_elements_def by (simp add: find_append)

lemma has_id_set_kids: "has_id i m \<Longrightarrow> has_id i (set_kids ks m)"
  by (cases m) auto

lemma has_id_set_attr: "has_id i m \<Longrightarrow> has_id i (set_attr k v m)"
  by (cases m) auto

lemma serialize_parse:
  "serialize (fst (parse h k)) = h"
  "map serialize (fst (parse_list hs k)) = hs"
  by (induction h k and hs k rule: parse_parse_list.induct) (auto split: prod.splits)


lemma descendants_is_elem: "m \<in> set (descendants n) \<Longrightarrow> is_elem m"
  using descendants_subset elements_is_elem by blast

lemma querySelector_SomeD:
  "querySelector sel root s = Some te \<Longrightarrow>
   sel te \<and> is_elem te \<and> te \<in> set (all_elements (roots s)) \<and> (\<exists>n. node_at s (eid te) = Some n)"
  unfolding querySelector_def node_at_def
  by (auto split: option.splits dest!: find_SomeD
      intro: in_forest_found dest: descendant_in_forest descendants_is_elem)

lemma node_at_setAttribute_same:
  "node_at (setAttribute i k v s) i = map_option (set_attr k v) (node_at s i)"
  unfolding node_at_def setAttribute_def modify_def
  by (simp add: find_node_upd has_id_set_attr)

lemma node_at_set_innerHTML_same:
  "node_at s i = Some n \<Longrightarrow>
   node_at (set_innerHTML i hs s) i = Some (set_kids (fst (parse_list hs (fresh s))) n)"
  unfolding node_at_def set_innerHTML_def
  by (auto split: prod.splits simp: find_node_upd has_id_set_kids intro!: find_node_append)

lemma innerHTML_set_kids: "is_elem n \<Longrightarrow> innerHTML (set_kids ks n) = map serialize ks"
  by (cases n) (auto simp: innerHTML_def)

lemma innerHTML_set_attr: "innerHTML (set_attr k v n) = innerHTML n"
  by (cases n) (auto simp: innerHTML_def)

lemma node_at_is_elem: "node_at s i = Some n \<Longrightarrow> is_elem n"
  unfolding node_at_def by (auto dest: find_node_SomeD)

lemma find_distinct:
  "distinct (map f xs) \<Longrightarrow> x \<in> set xs \<Longrightarrow> find (\<lambda>y. f y = f x) xs = Some x"
  by (induction xs) (auto simp: rev_image_eqI)

lemma find_has_id_eid:
  "\<forall>y\<in>set xs. is_elem y \<Longrightarrow> find (has_id i) xs = find (\<lambda>y. eid y = i) xs"
  by (rule find_cong) (auto simp: has_id_eid)

lemma all_elements_is_elem: "m \<in> set (all_elements f) \<Longrightarrow> is_elem m"
  unfolding all_elements_def by (auto dest: elements_is_elem)

lemma find_node_distinct:
  "distinct_ids f \<Longrightarrow> m \<in> set (all_elements f) \<Longrightarrow> find_node (eid m) f = Some m"
  unfolding find_node_def distinct_ids_def
  by (subst find_has_id_eid) (auto dest: all_elements_is_elem intro: find_distinct)

lemma querySelector_node_at:
  "well_formed s \<Longrightarrow> querySelector sel root s = Some te \<Longrightarrow> node_at s (eid te) = Some te"
  unfolding well_formed_def node_at_def
  by (auto dest!: querySelector_SomeD intro: find_node_distinct)

lemma map_of_put_attr: "map_of (put_attr k v a) = (map_of a)(k \<mapsto> v)"
  by (induction a) auto

lemma getAttribute_set_attr:
  "is_elem n \<Longrightarrow> getAttribute (set_attr k v n) k' = (if k' = k then Some v else getAttribute n k')"
  by (cases n) (auto simp: getAttribute_def map_of_put_attr)

lemma is_elem_set_attr: "is_elem (set_attr k v n) = is_elem n"
  by (cases n) auto

lemma copy_attributes_result:
  assumes "node_at s (eid te) = Some cur" "list_all plain_name names"
  shows "\<exists>s' cur'. copy_attributes (Some te) ne names s = Done s' \<and> node_at s' (eid te) = Some cur' \<and>
        (\<forall>k. getAttribute cur' k =
           (if k \<in> set names then Some (case getAttribute ne k of None \<Rightarrow> ''null'' | Some v \<Rightarrow> v)
            else getAttribute cur k))"
  using assms
proof (induction names arbitrary: s cur)
  case Nil
  then show ?case by simp
next
  case (Cons a names)
  let ?v = "case getAttribute ne a of None \<Rightarrow> ''null'' | Some v \<Rightarrow> v"
  let ?s1 = "setAttribute (eid te) a ?v s"
  have el: "is_elem cur" using Cons.prems(1) by (rule node_at_is_elem)
  have n1: "node_at ?s1 (eid te) = Some (set_attr a ?v cur)"
    using Cons.prems(1) by (simp add: node_at_setAttribute_same)
  from Cons.IH[OF n1] Cons.prems(2) obtain s' cur' where
    r: "copy_attributes (Some te) ne names ?s1 = Done s'" "node_at s' (eid te) = Some cur'"
    "\<forall>k. getAttribute cur' k =
           (if k \<in> set names then Some (case getAttribute ne k of None \<Rightarrow> ''null'' | Some v \<Rightarrow> v)
            else getAttribute (set_attr a ?v cur) k)" by auto
  show ?case
    using r Cons.prems(2) el by (auto simp: getAttribute_set_attr)
qed

lemma getAttribute_names: "(getAttribute n k \<noteq> None) = (k \<in> set (map fst (attrs n)))"
  unfolding getAttribute_def by (simp add: map_of_eq_None_iff)

subsection \<open>Nothing inside the merge reloads the page\<close>

lemma reloads_prims [simp]:
  "reloads (modify i f s) = reloads s"
  "reloads (setAttribute i k v s) = reloads s"
  "reloads (set_innerHTML i hs s) = reloads s"
  "reloads (createElement t s) = reloads s"
  "reloads (move_before r i s) = reloads s"
  "reloads (move_first r i s) = reloads s"
  "reloads (move_last r i s) = reloads s"
  "reloads (remove_node i s) = reloads s"
  "reloads (style_height env i v s) = reloads s"
  "reloads (setTimeout tk d s) = reloads s"
  by (auto simp: modify_def setAttribute_def set_innerHTML_def createElement_def move_before_def
      move_first_def move_last_def remove_node_def style_height_def setTimeout_def
      split: option.splits prod.splits)

lemma reloads_disable_inputs [simp]: "reloads (disable_inputs el s) = reloads s"
proof -
  have "reloads (fold (\<lambda>input. setAttribute input ''disabled'' []) xs s) = reloads s" for xs
    by (induction xs arbitrary: s) auto
  then show ?thesis by (simp add: disable_inputs_def)
qed

lemma reloads_hideAndRemove [simp]: "reloads (final_dom (hideAndRemove env el s)) = reloads s"
  by (auto simp: hideAndRemove_def Let_def split: option.splits)

lemma reloads_insertAdjacentElement [simp]:
  "reloads (final_dom (insertAdjacentElement cmd target el s)) = reloads s"
  by (auto simp: insertAdjacentElement_def split: option.splits position.splits)

lemma reloads_insertAndReveal [simp]:
  "reloads (final_dom (insertAndReveal env el target cmd delay s)) = reloads s"
proof -
  let ?s1 = "modify el (classList_add ''merge-add-wrapper'') s"
  have "reloads (final_dom (insertAdjacentElement cmd target el ?s1)) = reloads s"
    by (simp only: reloads_insertAdjacentElement reloads_prims)
  then show ?thesis
    by (cases "insertAdjacentElement cmd target el ?s1")
       (auto simp: insertAndReveal_def Let_def split: option.splits)
qed

lemma reloads_forEach:
  assumes "\<And>x s. reloads (final_dom (f x s)) = reloads s"
  shows "reloads (final_dom (forEach f xs s)) = reloads s"
proof (induction xs arbitrary: s)
  case (Cons x xs)
  show ?case using assms[of x s] Cons.IH by (cases "f x s") auto
qed simp

lemma reloads_mergeContent [simp]: "reloads (final_dom (mergeContent tc newEl s)) = reloads s"
  by (auto simp: mergeContent_def Let_def split: option.splits)

lemma reloads_copy_attributes [simp]:
  "reloads (final_dom (copy_attributes te ne names s)) = reloads s"
  by (induction names arbitrary: s) (auto split: option.splits)

lemma reloads_mergeAttributes [simp]: "reloads (final_dom (mergeAttributes tc newEl s)) = reloads s"
  by (auto simp: mergeAttributes_def Let_def split: option.splits)

lemma reloads_removeUnmatched [simp]:
  "reloads (final_dom (removeUnmatched env news t s)) = reloads s"
  by (auto simp: removeUnmatched_def split: option.splits)

lemma reloads_mergeItem:
  "(case mergeItem env tlist i x cur s of Done (c, s') \<Rightarrow> reloads s' = reloads s
      | Raised e s' \<Rightarrow> reloads s' = reloads s)"
proof (cases "find (\<lambda>item. mergeListItem s item = mergeListItem s x) cur")
  case None
  have k: "reloads (final_dom r) = reloads s \<Longrightarrow>
     (case (case r of Raised x s' \<Rightarrow> Raised x s' | Done s' \<Rightarrow> Done (L, s')) of
        Done (c, s') \<Rightarrow> reloads s' = reloads s | Raised e s' \<Rightarrow> reloads s' = reloads s)"
    for r and L :: "nat list"
    by (cases r) auto
  show ?thesis
    unfolding mergeItem_def None by (simp only: option.simps, rule k, simp)
next
  case (Some m)
  then show ?thesis
    by (auto simp: mergeItem_def Let_def split: option.splits)
qed

lemma reloads_mergeItems [simp]:
  "reloads (final_dom (mergeItems env tlist i xs cur s)) = reloads s"
proof (induction xs arbitrary: i cur s)
  case (Cons x xs)
  show ?case
    using reloads_mergeItem[where env = env and tlist = tlist and i = i and x = x and cur = cur and s = s]
      Cons.IH
    by (cases "mergeItem env tlist i x cur s") (auto split: prod.splits)
qed simp

lemma reloads_mergeList [simp]: "reloads (final_dom (mergeList env tc newList s)) = reloads s"
proof -
  have k: "reloads (final_dom (case forEach (removeUnmatched env ns) ts s of
       Raised x s' \<Rightarrow> Raised x s'
     | Done s1 \<Rightarrow> mergeItems env tl 0 ns (querySelectorAll live_item tl s1) s1)) = reloads s"
    for ns ts tl
  proof -
    have "reloads (final_dom (forEach (removeUnmatched env ns) ts s)) = reloads s"
      by (rule reloads_forEach) simp
    then show ?thesis
      by (cases "forEach (removeUnmatched env ns) ts s") simp_all
  qed
  show ?thesis
    by (auto simp: mergeList_def Let_def k split: option.splits)
qed

lemma reloads_mergeBody: "reloads (final_dom (mergeBody env nc tc s)) = reloads s"
proof -
  let ?r1 = "forEach (mergeContent tc) (querySelectorAll (has_attr ''data-merge'') nc s) s"
  have r1: "reloads (final_dom ?r1) = reloads s" by (rule reloads_forEach) simp
  show ?thesis
  proof (cases ?r1)
    case (Raised x s')
    then show ?thesis using r1 by (simp add: mergeBody_def)
  next
    case (Done s1)
    let ?r2 = "forEach (mergeAttributes tc) (querySelectorAll (has_attr ''data-merge-attributes'') nc s1) s1"
    have r2: "reloads (final_dom ?r2) = reloads s1" by (rule reloads_forEach) simp
    show ?thesis
    proof (cases ?r2)
      case (Raised x s')
      then show ?thesis using r1 r2 Done by (simp add: mergeBody_def)
    next
      case D2: (Done s2)
      have "reloads (final_dom (forEach (mergeList env tc)
              (querySelectorAll (has_attr ''data-merge-list'') nc s2) s2)) = reloads s2"
        by (rule reloads_forEach) simp
      then show ?thesis using r1 r2 Done D2 by (simp add: mergeBody_def)
    qed
  qed
qed

subsection \<open>Timers\<close>

lemma timers_prims [simp]:
  "timers (modify i f s) = timers s"
  "timers (setAttribute i k v s) = timers s"
  "timers (set_innerHTML i hs s) = timers s"
  "timers (createElement t s) = timers s"
  "timers (move_before r i s) = timers s"
  "timers (move_first r i s) = timers s"
  "timers (move_last r i s) = timers s"
  "timers (remove_node i s) = timers s"
  "timers (style_height env i v s) = timers s"
  "timers (setTimeout tk d s) = timers s @ [(now s + timeout_ms d, tk)]"
  by (auto simp: modify_def setAttribute_def set_innerHTML_def createElement_def move_before_def
      move_first_def move_last_def remove_node_def style_height_def setTimeout_def
      split: option.splits prod.splits)

lemma now_prims [simp]:
  "now (modify i f s) = now s"
  "now (setAttribute i k v s) = now s"
  "now (set_innerHTML i hs s) = now s"
  "now (createElement t s) = now s"
  "now (move_before r i s) = now s"
  "now (move_first r i s) = now s"
  "now (move_last r i s) = now s"
  "now (remove_node i s) = now s"
  "now (style_height env i v s) = now s"
  "now (setTimeout tk d s) = now s"
  by (auto simp: modify_def setAttribute_def set_innerHTML_def createElement_def move_before_def
      move_first_def move_last_def remove_node_def style_height_def setTimeout_def
      split: option.splits prod.splits)

lemma fresh_prims [simp]:
  "fresh (modify i f s) = fresh s"
  "fresh (setAttribute i k v s) = fresh s"
  "fresh (createElement t s) = Suc (fresh s)"
  "fresh (move_before r i s) = fresh s"
  "fresh (move_first r i s) = fresh s"
  "fresh (move_last r i s) = fresh s"
  "fresh (remove_node i s) = fresh s"
  "fresh (style_height env i v s) = fresh s"
  "fresh (setTimeout tk d s) = fresh s"
  by (auto simp: modify_def setAttribute_def createElement_def move_before_def
      move_first_def move_last_def remove_node_def style_height_def setTimeout_def
      split: option.splits prod.splits)

lemma disable_inputs_frame [simp]:
  "timers (disable_inputs el s) = timers s"
  "now (disable_inputs el s) = now s"
  "fresh (disable_inputs el s) = fresh s"
proof -
  have "timers (fold (\<lambda>input. setAttribute input ''disabled'' []) xs s) = timers s \<and>
        now (fold (\<lambda>input. setAttribute input ''disabled'' []) xs s) = now s \<and>
        fresh (fold (\<lambda>input. setAttribute input ''disabled'' []) xs s) = fresh s" for xs
    by (induction xs arbitrary: s) auto
  then show "timers (disable_inputs el s) = timers s" "now (disable_inputs el s) = now s"
    "fresh (disable_inputs el s) = fresh s"
    by (simp_all add: disable_inputs_def)
qed

lemma hideAndRemove_timers:
  "hideAndRemove env el s = Done s' \<Longrightarrow>
   timers s' = timers s @ [(now s + 10, RemoveFade (fresh s) (fadeDuration env el) (slideDuration env el))]
   \<and> now s' = now s"
  by (auto simp: hideAndRemove_def Let_def split: option.splits)

lemma insertAdjacentElement_frame:
  "insertAdjacentElement cmd target el s = Done s' \<Longrightarrow> timers s' = timers s \<and> now s' = now s"
  by (auto simp: insertAdjacentElement_def split: option.splits position.splits if_splits)

lemma insertAndReveal_timers:
  "insertAndReveal env el target cmd delay s = Done s' \<Longrightarrow>
   timers s' = timers s @ [(now s + (if delay = 0 then 10 else delay),
                            RevealSlide el (fadeDuration env el) (slideDuration env el))]
   \<and> now s' = now s"
  by (auto simp: insertAndReveal_def Let_def split: option.splits result.splits
      dest!: insertAdjacentElement_frame)

lemma returned_hideAndRemove_env:
  "returned (hideAndRemove (missing_durations env) el s) = returned (hideAndRemove env el s)"
  by (auto simp: hideAndRemove_def Let_def missing_durations_def style_height_def split: option.splits)

lemma returned_insertAndReveal_env:
  "returned (insertAndReveal (missing_durations env) el target cmd delay s)
   = returned (insertAndReveal env el target cmd delay s)"
  by (auto simp: insertAndReveal_def Let_def missing_durations_def style_height_def
      split: option.splits result.splits)

lemma run_detach:
  assumes "timers s' = [(t0, RemoveFade w None None)]" "now s' \<le> t0"
  shows "\<exists>s''. run env 3 s' = ([(t0, RemoveFade w None None), (t0, RemoveSlide w None), (t0, RemoveDetach w)], s'')
           \<and> timers s'' = []"
  using assms
  by (simp add: numeral_3_eq_3 fire_def max_def split: prod.splits)

lemma run_reveal:
  assumes "timers s' = [(t0, RevealSlide el None None)]" "now s' \<le> t0"
  shows "\<exists>s''. run env 3 s' = ([(t0, RevealSlide el None None), (t0, RevealFade el None), (t0, RevealTidy el)], s'')
           \<and> timers s'' = []"
  using assms
  by (simp add: numeral_3_eq_3 fire_def max_def split: prod.splits)

subsection \<open>Induction over trees and forests; attribute-only updates\<close>

lemma node_forest_induct [case_names Text Elem Nil Cons]:
  assumes "\<And>s. P (Text s)" "\<And>j t a ks. Q ks \<Longrightarrow> P (Elem j t a ks)"
    "Q []" "\<And>k ks. P k \<Longrightarrow> Q ks \<Longrightarrow> Q (k # ks)"
  shows "P n" and "Q ks"
proof -
  have "P n \<and> (\<forall>ks. n = Elem (eid n) (tag n) (attrs n) ks \<longrightarrow> Q ks)" for n
  proof (induction n)
    case (Elem j t a ks)
    have "Q ks" using Elem.IH
    proof (induction ks)
      case Nil
      show ?case by (rule assms(3))
    next
      case (Cons k ks)
      show ?case by (rule assms(4)) (use Cons in auto)
    qed
    then show ?case using assms(2) by auto
  next
    case (Text s)
    show ?case using assms(1) by simp
  qed
  then have p: "P n" for n by blast
  show "P n" by (rule p)
  show "Q ks" by (induction ks) (use assms(3,4) p in auto)
qed

lemma all_elements_simps [simp]:
  "all_elements [] = []"
  "all_elements (k # ks) = elements k @ all_elements ks"
  "all_elements (xs @ ys) = all_elements xs @ all_elements ys"
  by (simp_all add: all_elements_def)

lemma elements_Elem: "elements (Elem j t a ks) = Elem j t a ks # all_elements ks"
  by (simp add: all_elements_def)

lemma forest_ids_simps [simp]:
  "forest_ids [] = []"
  "forest_ids (k # ks) = map eid (elements k) @ forest_ids ks"
  "forest_ids (xs @ ys) = forest_ids xs @ forest_ids ys"
  by (simp_all add: forest_ids_def)

lemma ids_Elem: "map eid (elements (Elem j t a ks)) = j # forest_ids ks"
  by (simp add: forest_ids_def all_elements_def)

lemma has_id_in_ids:
  assumes "m \<in> set (elements n)" "has_id i m"
  shows "i \<in> set (map eid (elements n))"
proof -
  have "eid m = i" using assms elements_is_elem has_id_eid by blast
  then show ?thesis using assms(1) by force
qed

lemma upd_noop:
  "i \<notin> set (map eid (elements n)) \<Longrightarrow> upd i f n = n"
  "i \<notin> set (forest_ids ks) \<Longrightarrow> map (upd i f) ks = ks"
proof (induction n and ks rule: node_forest_induct)
  case (Text s)
  show ?case by simp
next
  case (Elem j t a ks)
  have "j \<noteq> i" "i \<notin> set (forest_ids ks)" using Elem.prems by (simp_all add: ids_Elem del: elements.simps)
  then show ?case using Elem.IH by simp
next
  case Nil
  show ?case by simp
next
  case (Cons k ks)
  have "i \<notin> set (map eid (elements k))" "i \<notin> set (forest_ids ks)" using Cons.prems by simp_all
  then show ?case using Cons.IH by simp
qed

lemma has_id_prune [simp]: "has_id i (prune j n) = has_id i n"
  by (cases n) auto

lemma prune_Elem: "prune i (Elem j t a ks) = Elem j t a (detach i ks)"
  by (simp add: detach_def)

lemma detach_simps [simp]:
  "detach i [] = []"
  "detach i (k # ks) = (if has_id i k then detach i ks else prune i k # detach i ks)"
  by (simp_all add: detach_def)

lemma prune_noop:
  "i \<notin> set (map eid (elements n)) \<Longrightarrow> prune i n = n"
  "i \<notin> set (forest_ids ks) \<Longrightarrow> detach i ks = ks"
proof (induction n and ks rule: node_forest_induct)
  case (Text s)
  show ?case by simp
next
  case (Elem j t a ks)
  have "i \<notin> set (forest_ids ks)" using Elem.prems by (simp add: ids_Elem del: elements.simps)
  then show ?case using Elem.IH by (simp add: prune_Elem del: prune.simps)
next
  case Nil
  show ?case by simp
next
  case (Cons k ks)
  have a: "i \<notin> set (map eid (elements k))" "i \<notin> set (forest_ids ks)" using Cons.prems by simp_all
  have "\<not> has_id i k" using a(1) by (cases k) auto
  then show ?case using Cons.IH a by simp
qed

lemma ins_before_Elem: "ins_before r n (Elem j t a ks) = Elem j t a (ins_kids r n ks)"
  by (simp add: ins_kids_def)

lemma ins_kids_simps [simp]:
  "ins_kids r n [] = []"
  "ins_kids r n (k # ks) = (if has_id r k then n # k # ins_kids r n ks else ins_before r n k # ins_kids r n ks)"
  by (simp_all add: ins_kids_def)

lemma ins_noop:
  "r \<notin> set (map eid (elements m)) \<Longrightarrow> ins_before r n m = m"
  "r \<notin> set (forest_ids ks) \<Longrightarrow> ins_kids r n ks = ks"
proof (induction m and ks rule: node_forest_induct)
  case (Text s)
  show ?case by simp
next
  case (Elem j t a ks)
  have "r \<notin> set (forest_ids ks)" using Elem.prems by (simp add: ids_Elem del: elements.simps)
  then show ?case using Elem.IH by (simp add: ins_before_Elem del: ins_before.simps)
next
  case Nil
  show ?case by simp
next
  case (Cons k ks)
  have a: "r \<notin> set (map eid (elements k))" "r \<notin> set (forest_ids ks)" using Cons.prems by simp_all
  have "\<not> has_id r k" using a(1) by (cases k) auto
  then show ?case using Cons.IH a by simp
qed

lemma attr_only_Elem:
  assumes "attr_only f"
  shows "f (Elem j t a ks) = Elem j t (attrs (f (Elem j t a ks))) ks" "f (Text s) = Text s"
proof -
  have e: "f n = (case n of Elem j t a ks \<Rightarrow> Elem j t (attrs (f n)) ks | Text s \<Rightarrow> Text s)" for n
    using assms unfolding attr_only_def by blast
  show "f (Elem j t a ks) = Elem j t (attrs (f (Elem j t a ks))) ks"
    using e[of "Elem j t a ks"] by simp
  show "f (Text s) = Text s" using e[of "Text s"] by simp
qed

lemma attr_only_simps:
  assumes "attr_only f"
  shows "kids (f n) = kids n" "eid (f n) = eid n" "tag (f n) = tag n" "is_elem (f n) = is_elem n"
    "has_id i (f n) = has_id i n" "elements (f n) = (if is_elem n then f n # all_elements (kids n) else [])"
proof -
  have c: "(\<exists>j t a a' ks. n = Elem j t a ks \<and> f n = Elem j t a' ks) \<or> (\<exists>s. n = Text s \<and> f n = Text s)"
  proof (cases n)
    case (Elem j t a ks)
    then show ?thesis using attr_only_Elem(1)[OF assms, of j t a ks] by auto
  next
    case (Text s)
    then show ?thesis using attr_only_Elem(2)[OF assms, of s] by auto
  qed
  show "kids (f n) = kids n" using c by auto
  show "eid (f n) = eid n" using c by auto
  show "tag (f n) = tag n" using c by auto
  show "is_elem (f n) = is_elem n" using c by auto
  show "has_id i (f n) = has_id i n" using c by auto
  show "elements (f n) = (if is_elem n then f n # all_elements (kids n) else [])"
    using c by (auto simp: all_elements_def)
qed

lemma attr_only_set_attr [simp]: "attr_only (set_attr k v)"
  unfolding attr_only_def by (auto split: node.splits)

lemma attr_only_class_update [simp]: "attr_only (class_update ts)"
  unfolding attr_only_def class_update_def by (auto split: node.splits)

lemma attr_only_classList_add [simp]: "attr_only (classList_add t)"
  unfolding attr_only_def classList_add_def class_update_def by (auto split: node.splits)

lemma attr_only_classList_remove [simp]: "attr_only (classList_remove ts)"
  unfolding attr_only_def classList_remove_def class_update_def by (auto split: node.splits)

lemma attr_only_style [simp]: "attr_only (\<lambda>n. set_attr ''style'' (g n) n)"
  unfolding attr_only_def by (auto split: node.splits)

lemma ids_upd_attr:
  assumes "attr_only f"
  shows "map eid (elements (upd i f n)) = map eid (elements n)"
    "forest_ids (map (upd i f) ks) = forest_ids ks"
proof (induction n and ks rule: node_forest_induct)
  case (Text s)
  show ?case by simp
next
  case (Elem j t a ks)
  show ?case
  proof (cases "j = i")
    case True
    obtain a' where fn: "f (Elem i t a ks) = Elem i t a' ks"
      using attr_only_Elem(1)[OF assms] by blast
    show ?thesis using True by (simp add: fn)
  next
    case False
    then show ?thesis using Elem by (simp add: ids_Elem del: elements.simps)
  qed
next
  case Nil
  show ?case by simp
next
  case (Cons k ks)
  then show ?case by simp
qed

lemma descendants_noop:
  assumes "i \<notin> set (forest_ids ks)" "m \<in> set (all_elements ks)"
  shows "upd i f m = m"
proof -
  obtain k where k: "k \<in> set ks" "m \<in> set (elements k)"
    using assms(2) by (auto simp: all_elements_def)
  have "set (elements m) \<subseteq> set (elements k)" using k(2) by (rule elements_trans)
  then have "set (map eid (elements m)) \<subseteq> set (forest_ids ks)"
    using k(1) by (auto simp: forest_ids_def all_elements_def)
  then show ?thesis using assms(1) upd_noop(1) by blast
qed

lemma elements_upd_attr:
  assumes "attr_only f"
  shows "distinct (map eid (elements n)) \<Longrightarrow> elements (upd i f n) = map (upd i f) (elements n)"
    "distinct (forest_ids ks) \<Longrightarrow> all_elements (map (upd i f) ks) = map (upd i f) (all_elements ks)"
proof (induction n and ks rule: node_forest_induct)
  case (Text s)
  show ?case by simp
next
  case (Elem j t a ks)
  show ?case
  proof (cases "j = i")
    case True
    have "i \<notin> set (forest_ids ks)" using Elem.prems True by (simp add: ids_Elem del: elements.simps)
    then have "map (upd i f) (all_elements ks) = all_elements ks"
      using descendants_noop by (simp add: map_idI)
    moreover obtain a' where fn: "f (Elem i t a ks) = Elem i t a' ks"
      using attr_only_Elem(1)[OF assms] by blast
    ultimately show ?thesis
      using True by (simp add: fn elements_Elem del: elements.simps)
  next
    case False
    have "distinct (forest_ids ks)" using Elem.prems by (simp add: ids_Elem del: elements.simps)
    then show ?thesis using False Elem.IH by (simp add: elements_Elem del: elements.simps)
  qed
next
  case Nil
  show ?case by simp
next
  case (Cons k ks)
  then show ?case by simp
qed

subsection \<open>Detaching a subtree\<close>

lemma find_self: "is_elem n \<Longrightarrow> has_id i n \<Longrightarrow> find (has_id i) (elements n) = Some n"
  by (cases n) auto

lemma find_node_None_iff: "(find_node i F = None) = (i \<notin> set (forest_ids F))"
proof -
  have "(\<exists>x\<in>set (all_elements F). has_id i x) = (i \<in> eid ` set (all_elements F))"
    using all_elements_is_elem has_id_eid by (metis image_iff)
  then show ?thesis
    unfolding find_node_def forest_ids_def by (auto simp: find_None_iff)
qed

lemma find_node_in_ids: "find_node i F = Some n \<Longrightarrow> i \<in> set (forest_ids F)"
  using find_node_None_iff[of i F] by auto

lemma find_node_via:
  assumes "distinct (forest_ids F)" "j \<in> set (forest_ids F)"
    "\<And>m. m \<in> set (all_elements F) \<Longrightarrow> eid m = j \<Longrightarrow> m = x"
  shows "find_node j F = Some x"
proof -
  obtain m where "find_node j F = Some m"
    using assms(2) find_node_None_iff[of j F] by (cases "find_node j F") auto
  then show ?thesis using assms(3) find_node_SomeD by blast
qed

lemma eid_prune [simp]: "eid (prune i n) = eid n" "tag (prune i n) = tag n" "attrs (prune i n) = attrs n"
  "is_elem (prune i n) = is_elem n"
  by (cases n; simp)+

lemma detach_no_id:
  "\<not> has_id i n \<Longrightarrow> i \<notin> set (map eid (elements (prune i n)))"
  "i \<notin> set (forest_ids (detach i ks))"
proof (induction n and ks rule: node_forest_induct)
  case (Text s)
  show ?case by simp
next
  case (Elem j t a ks)
  then show ?case by (simp add: prune_Elem ids_Elem del: prune.simps elements.simps)
next
  case Nil
  show ?case by simp
next
  case (Cons k ks)
  then show ?case by simp
qed

lemma detach_image:
  "m' \<in> set (elements (prune i n)) \<Longrightarrow> \<exists>m\<in>set (elements n). m' = prune i m"
  "m' \<in> set (all_elements (detach i ks)) \<Longrightarrow> \<exists>m\<in>set (all_elements ks). m' = prune i m"
proof (induction n and ks rule: node_forest_induct)
  case (Text s)
  then show ?case by simp
next
  case (Elem j t a ks)
  have "m' = prune i (Elem j t a ks) \<or> m' \<in> set (all_elements (detach i ks))"
    using Elem.prems by (simp add: prune_Elem elements_Elem del: prune.simps elements.simps)
  then show ?case using Elem.IH by (auto simp: elements_Elem simp del: prune.simps elements.simps)
next
  case Nil
  then show ?case by simp
next
  case (Cons k ks)
  then show ?case by (auto split: if_splits)
qed

lemma find_all_elements_Cons:
  "find P (all_elements (k # ks)) = (case find P (elements k) of None \<Rightarrow> find P (all_elements ks) | Some x \<Rightarrow> Some x)"
  by (simp add: find_append)

lemma find_has_id_None: "(find (has_id i) (elements n) = None) = (i \<notin> set (map eid (elements n)))"
proof
  assume "find (has_id i) (elements n) = None"
  then have a: "\<forall>x\<in>set (elements n). \<not> has_id i x" by (simp add: find_None_iff)
  show "i \<notin> set (map eid (elements n))"
  proof
    assume "i \<in> set (map eid (elements n))"
    then obtain x where x: "x \<in> set (elements n)" "eid x = i" by auto
    then have "has_id i x" using elements_is_elem has_id_eid by blast
    then show False using a x(1) by blast
  qed
next
  assume n: "i \<notin> set (map eid (elements n))"
  have "\<not> has_id i x" if "x \<in> set (elements n)" for x
    using that n has_id_in_ids by blast
  then show "find (has_id i) (elements n) = None" unfolding find_None_iff by blast
qed

lemma detach_mset:
  "distinct (map eid (elements n)) \<Longrightarrow> \<not> has_id i n \<Longrightarrow> find (has_id i) (elements n) = Some e \<Longrightarrow>
     mset (map eid (elements n)) = mset (map eid (elements (prune i n))) + mset (map eid (elements e))"
  "distinct (forest_ids ks) \<Longrightarrow> find (has_id i) (all_elements ks) = Some e \<Longrightarrow>
     mset (forest_ids ks) = mset (forest_ids (detach i ks)) + mset (map eid (elements e))"
proof (induction n and ks rule: node_forest_induct)
  case (Text s)
  then show ?case by simp
next
  case (Elem j t a ks)
  have "distinct (forest_ids ks)" using Elem.prems(1) by (simp add: ids_Elem del: elements.simps)
  moreover have "find (has_id i) (all_elements ks) = Some e"
    using Elem.prems(2,3) by (simp add: elements_Elem del: elements.simps)
  ultimately show ?case using Elem.IH
    by (simp add: prune_Elem ids_Elem del: prune.simps elements.simps)
next
  case Nil
  then show ?case by simp
next
  case (Cons k ks)
  have d: "distinct (map eid (elements k))" "distinct (forest_ids ks)"
    "set (map eid (elements k)) \<inter> set (forest_ids ks) = {}"
    using Cons.prems(1) by auto
  show ?case
  proof (cases "has_id i k")
    case True
    then have ek: "is_elem k" by (cases k) auto
    then have "e = k" using Cons.prems(2) True by (simp add: find_append find_self)
    moreover have "i \<in> set (map eid (elements k))" using True ek elements_self has_id_in_ids by blast
    then have "i \<notin> set (forest_ids ks)" using d(3) by auto
    then have "detach i ks = ks" by (rule prune_noop(2))
    ultimately show ?thesis using True by simp
  next
    case False
    show ?thesis
    proof (cases "find (has_id i) (elements k)")
      case None
      then have "i \<notin> set (map eid (elements k))" by (simp add: find_has_id_None)
      then have "prune i k = k" by (rule prune_noop(1))
      moreover have "find (has_id i) (all_elements ks) = Some e"
        using Cons.prems(2) None by (simp add: find_append)
      ultimately show ?thesis using False Cons.IH(2) d by simp
    next
      case (Some e')
      then have "e' = e" using Cons.prems(2) by (simp add: find_append)
      then have a: "mset (map eid (elements k)) =
          mset (map eid (elements (prune i k))) + mset (map eid (elements e))"
        using Cons.IH(1) d(1) False Some by simp
      have "i \<in> set (map eid (elements k))" using Some find_has_id_None[of i k] by auto
      then have "i \<notin> set (forest_ids ks)" using d(3) by auto
      then have "detach i ks = ks" by (rule prune_noop(2))
      then show ?thesis using False a by simp
    qed
  qed
qed

lemma distinct_mset_split:
  "mset ys = mset xs + mset zs \<Longrightarrow> distinct ys = distinct (xs @ zs)"
  using mset_eq_imp_distinct_iff[of ys "xs @ zs"] by simp

lemma detach_distinct:
  assumes "distinct (forest_ids F)"
  shows "distinct (forest_ids (detach i F))"
proof (cases "find_node i F")
  case None
  then have "i \<notin> set (forest_ids F)" by (simp add: find_node_None_iff)
  then have "detach i F = F" by (rule prune_noop(2))
  then show ?thesis using assms by simp
next
  case (Some e)
  then have "mset (forest_ids F) = mset (forest_ids (detach i F)) + mset (map eid (elements e))"
    using detach_mset(2)[OF assms] by (simp add: find_node_def)
  then show ?thesis using assms distinct_mset_split by fastforce
qed

lemma detach_survivor:
  assumes d: "distinct (forest_ids F)" and e: "find_node i F = Some e"
    and m: "find_node j F = Some m" and out: "j \<notin> set (map eid (elements e))"
  shows "find_node j (detach i F) = Some (prune i m)"
proof (rule find_node_via)
  show "distinct (forest_ids (detach i F))" using d by (rule detach_distinct)
  have eq: "mset (forest_ids F) = mset (forest_ids (detach i F)) + mset (map eid (elements e))"
    using detach_mset(2)[OF d] e by (simp add: find_node_def)
  have "set (forest_ids F) = set (forest_ids (detach i F)) \<union> set (map eid (elements e))"
    using arg_cong[OF eq, of set_mset] by simp
  then show "j \<in> set (forest_ids (detach i F))" using find_node_in_ids[OF m] out by blast
  fix m' assume m': "m' \<in> set (all_elements (detach i F))" "eid m' = j"
  then obtain m0 where m0: "m0 \<in> set (all_elements F)" "m' = prune i m0"
    using detach_image(2) by blast
  then have "eid m0 = j" using m'(2) by simp
  then have "find_node j F = Some m0" using find_node_distinct[of F m0] d m0(1)
    by (simp add: distinct_ids_def forest_ids_def)
  then show "m' = prune i m" using m m0(2) by simp
qed

lemma detach_absent:
  "find_node i F = None \<Longrightarrow> detach i F = F"
  by (rule prune_noop(2)) (simp add: find_node_None_iff)

subsection \<open>Adding a child\<close>

lemma all_elements_mono: "k \<in> set ks \<Longrightarrow> set (elements k) \<subseteq> set (all_elements ks)"
  by (auto simp: all_elements_def)

lemma ids_is_elem: "is_elem m \<Longrightarrow> map eid (elements m) = eid m # forest_ids (kids m)"
  by (cases m) (simp_all add: forest_ids_def all_elements_def)

lemma add_kid_Elem [simp]:
  "add_last n (Elem j t a ks) = Elem j t a (ks @ [n])"
  "add_first n (Elem j t a ks) = Elem j t a (n # ks)"
  by simp_all

text \<open>Adding a child: \<open>g\<close> is \<open>add_first n\<close> or \<open>add_last n\<close>.\<close>

lemma place_mset:
  assumes g: "\<And>j t a ks. g (Elem j t a ks) = Elem j t a (h ks)"
    and h: "\<And>ks. mset (forest_ids (h ks)) = mset (forest_ids ks) + mset (map eid (elements n))"
  shows "distinct (map eid (elements m)) \<Longrightarrow>
      mset (map eid (elements (upd p g m))) =
        mset (map eid (elements m)) + (if p \<in> set (map eid (elements m)) then mset (map eid (elements n)) else {#})"
    "distinct (forest_ids ks) \<Longrightarrow>
      mset (forest_ids (map (upd p g) ks)) =
        mset (forest_ids ks) + (if p \<in> set (forest_ids ks) then mset (map eid (elements n)) else {#})"
proof (induction m and ks rule: node_forest_induct)
  case (Text s)
  show ?case by simp
next
  case (Elem j t a ks)
  have d: "distinct (forest_ids ks)" "j \<notin> set (forest_ids ks)"
    using Elem.prems by (simp_all add: ids_Elem del: elements.simps)
  show ?case
  proof (cases "j = p")
    case True
    show ?thesis using True by (simp add: g ids_Elem h del: elements.simps)
  next
    case False
    then show ?thesis using Elem.IH[OF d(1)] by (simp add: ids_Elem del: elements.simps)
  qed
next
  case Nil
  show ?case by simp
next
  case (Cons k ks)
  have d: "distinct (map eid (elements k))" "distinct (forest_ids ks)"
    "set (map eid (elements k)) \<inter> set (forest_ids ks) = {}"
    using Cons.prems by auto
  have "\<not> (p \<in> set (map eid (elements k)) \<and> p \<in> set (forest_ids ks))" using d(3) by blast
  then show ?case using Cons.IH(1)[OF d(1)] Cons.IH(2)[OF d(2)] by auto
qed

lemma place_image:
  assumes g: "\<And>j t a ks. g (Elem j t a ks) = Elem j t a (h ks)"
    and h: "\<And>ks. set (all_elements (h ks)) = set (all_elements ks) \<union> set (elements n)"
  shows "distinct (map eid (elements m)) \<Longrightarrow> m' \<in> set (elements (upd p g m)) \<Longrightarrow>
      m' \<in> set (elements n) \<or> (\<exists>m0\<in>set (elements m). m' = upd p g m0)"
    "distinct (forest_ids ks) \<Longrightarrow> m' \<in> set (all_elements (map (upd p g) ks)) \<Longrightarrow>
      m' \<in> set (elements n) \<or> (\<exists>m0\<in>set (all_elements ks). m' = upd p g m0)"
proof (induction m and ks rule: node_forest_induct)
  case (Text s)
  then show ?case by simp
next
  case (Elem j t a ks)
  have d: "distinct (forest_ids ks)" "j \<notin> set (forest_ids ks)"
    using Elem.prems(1) by (simp_all add: ids_Elem del: elements.simps)
  show ?case
  proof (cases "j = p")
    case True
    have "m' = upd p g (Elem j t a ks) \<or> m' \<in> set (all_elements ks) \<or> m' \<in> set (elements n)"
      using Elem.prems(2) True by (auto simp: g elements_Elem h simp del: elements.simps)
    then consider (a) "m' = upd p g (Elem j t a ks)" | (b) "m' \<in> set (all_elements ks)"
      | (c) "m' \<in> set (elements n)" by blast
    then show ?thesis
    proof cases
      case a
      then show ?thesis by (simp add: elements_Elem del: elements.simps upd.simps)
    next
      case b
      have "m' = upd p g m'" using b d(2) True descendants_noop[of p ks m' g] by simp
      moreover have "m' \<in> set (elements (Elem j t a ks))"
        using b by (simp add: elements_Elem del: elements.simps)
      ultimately show ?thesis by blast
    next
      case c
      then show ?thesis by simp
    qed
  next
    case False
    have "m' = upd p g (Elem j t a ks) \<or> m' \<in> set (all_elements (map (upd p g) ks))"
      using Elem.prems(2) False by (auto simp: elements_Elem simp del: elements.simps)
    then show ?thesis using Elem.IH[OF d(1)]
      by (auto simp: elements_Elem simp del: elements.simps upd.simps)
  qed
next
  case Nil
  then show ?case by simp
next
  case (Cons k ks)
  have d: "distinct (map eid (elements k))" "distinct (forest_ids ks)"
    using Cons.prems(1) by auto
  have "m' \<in> set (elements (upd p g k)) \<or> m' \<in> set (all_elements (map (upd p g) ks))"
    using Cons.prems(2) by auto
  then show ?case using Cons.IH(1)[OF d(1)] Cons.IH(2)[OF d(2)] by auto
qed

lemma place_contains:
  assumes g: "\<And>j t a ks. g (Elem j t a ks) = Elem j t a (h ks)"
    and h: "\<And>ks. set (all_elements (h ks)) = set (all_elements ks) \<union> set (elements n)"
  shows "p \<in> set (map eid (elements m)) \<Longrightarrow> set (elements n) \<subseteq> set (elements (upd p g m))"
    "p \<in> set (forest_ids ks) \<Longrightarrow> set (elements n) \<subseteq> set (all_elements (map (upd p g) ks))"
proof (induction m and ks rule: node_forest_induct)
  case (Text s)
  then show ?case by simp
next
  case (Elem j t a ks)
  show ?case
  proof (cases "j = p")
    case True
    then show ?thesis by (auto simp: g elements_Elem h simp del: elements.simps)
  next
    case False
    then have "p \<in> set (forest_ids ks)" using Elem.prems by (simp add: ids_Elem del: elements.simps)
    then show ?thesis using Elem.IH False by (auto simp: elements_Elem simp del: elements.simps)
  qed
next
  case Nil
  then show ?case by simp
next
  case (Cons k ks)
  then show ?case by auto
qed

lemma eid_upd_kid:
  assumes g: "\<And>j t a ks. g (Elem j t a ks) = Elem j t a (h ks)"
  shows "eid (upd p g m) = eid m" "tag (upd p g m) = tag m" "attrs (upd p g m) = attrs m"
  by (cases m; simp add: g)+

lemma place_distinct:
  assumes g: "\<And>j t a ks. g (Elem j t a ks) = Elem j t a (h ks)"
    and h: "\<And>ks. mset (forest_ids (h ks)) = mset (forest_ids ks) + mset (map eid (elements n))"
    and d: "distinct (forest_ids G)" "distinct (map eid (elements n))"
      "set (map eid (elements n)) \<inter> set (forest_ids G) = {}"
  shows "distinct (forest_ids (map (upd p g) G))"
proof (cases "p \<in> set (forest_ids G)")
  case True
  then have "mset (forest_ids (map (upd p g) G)) = mset (forest_ids G) + mset (map eid (elements n))"
    using place_mset(2)[OF g h d(1)] by simp
  then have "distinct (forest_ids (map (upd p g) G)) = distinct (forest_ids G @ map eid (elements n))"
    by (rule distinct_mset_split)
  then show ?thesis using d by auto
next
  case False
  then show ?thesis using d(1) by (simp add: upd_noop(2))
qed

lemma place_find_old:
  assumes g: "\<And>j t a ks. g (Elem j t a ks) = Elem j t a (h ks)"
    and h: "\<And>ks. mset (forest_ids (h ks)) = mset (forest_ids ks) + mset (map eid (elements n))"
    and h': "\<And>ks. set (all_elements (h ks)) = set (all_elements ks) \<union> set (elements n)"
    and d: "distinct (forest_ids G)" "distinct (map eid (elements n))"
      "set (map eid (elements n)) \<inter> set (forest_ids G) = {}"
    and m: "find_node j G = Some m"
  shows "find_node j (map (upd p g) G) = Some (upd p g m)"
proof (rule find_node_via)
  show "distinct (forest_ids (map (upd p g) G))" using place_distinct[OF g h d] .
  have "set (forest_ids G) \<subseteq> set (forest_ids (map (upd p g) G))"
    using arg_cong[OF place_mset(2)[OF g h d(1), of p], of set_mset] by auto
  then show "j \<in> set (forest_ids (map (upd p g) G))" using find_node_in_ids[OF m] by blast
  fix m' assume m': "m' \<in> set (all_elements (map (upd p g) G))" "eid m' = j"
  have jG: "j \<in> set (forest_ids G)" using find_node_in_ids[OF m] .
  from place_image(2)[OF g h' d(1) m'(1)]
  show "m' = upd p g m"
  proof
    assume "m' \<in> set (elements n)"
    then have "j \<in> set (map eid (elements n))" using m'(2) by force
    then show ?thesis using d(3) jG by blast
  next
    assume "\<exists>m0\<in>set (all_elements G). m' = upd p g m0"
    then obtain m0 where m0: "m0 \<in> set (all_elements G)" "m' = upd p g m0" by blast
    then have "eid m0 = j" using m'(2) eid_upd_kid(1)[OF g] by simp
    then have "find_node j G = Some m0" using find_node_distinct[of G m0] d(1) m0(1)
      by (simp add: distinct_ids_def forest_ids_def)
    then show ?thesis using m m0(2) by simp
  qed
qed

lemma place_find_new:
  assumes g: "\<And>j t a ks. g (Elem j t a ks) = Elem j t a (h ks)"
    and h: "\<And>ks. mset (forest_ids (h ks)) = mset (forest_ids ks) + mset (map eid (elements n))"
    and h': "\<And>ks. set (all_elements (h ks)) = set (all_elements ks) \<union> set (elements n)"
    and d: "distinct (forest_ids G)" "distinct (map eid (elements n))"
      "set (map eid (elements n)) \<inter> set (forest_ids G) = {}"
    and p: "p \<in> set (forest_ids G)" and x: "x \<in> set (elements n)"
  shows "find_node (eid x) (map (upd p g) G) = Some x"
proof -
  have "x \<in> set (all_elements (map (upd p g) G))" using place_contains(2)[OF g h' p] x by blast
  moreover have "distinct_ids (map (upd p g) G)"
    using place_distinct[OF g h d] by (simp add: distinct_ids_def forest_ids_def)
  ultimately show ?thesis by (simp add: find_node_distinct)
qed

lemma add_last_props:
  "mset (forest_ids (ks @ [n])) = mset (forest_ids ks) + mset (map eid (elements n))"
  "set (all_elements (ks @ [n])) = set (all_elements ks) \<union> set (elements n)"
  by simp_all

lemma add_first_props:
  "mset (forest_ids (n # ks)) = mset (forest_ids ks) + mset (map eid (elements n))"
  "set (all_elements (n # ks)) = set (all_elements ks) \<union> set (elements n)"
  by auto

subsection \<open>Inserting before a sibling\<close>

lemma inner_ids_simps [simp]:
  "inner_ids [] = []"
  "inner_ids (k # ks) = forest_ids (kids k) @ inner_ids ks"
  by (simp_all add: inner_ids_def)

lemma ids_cases: "set (map eid (elements k)) = (if is_elem k then {eid k} else {}) \<union> set (forest_ids (kids k))"
  by (cases k) (auto simp: forest_ids_def all_elements_def)

lemma eid_ins_before [simp]:
  "eid (ins_before r n m) = eid m" "tag (ins_before r n m) = tag m" "attrs (ins_before r n m) = attrs m"
  "is_elem (ins_before r n m) = is_elem m" "has_id i (ins_before r n m) = has_id i m"
  by (cases m; simp)+

lemma ins_noop_kids: "r \<notin> set (forest_ids (kids m)) \<Longrightarrow> ins_before r n m = m"
proof (cases m)
  case (Elem j t a ks)
  assume "r \<notin> set (forest_ids (kids m))"
  then have "ins_kids r n ks = ks" using Elem ins_noop(2) by simp
  then show ?thesis using Elem by (simp only: ins_before_Elem)
next
  case (Text s)
  then show ?thesis by simp
qed

lemma all_elements_trans:
  assumes "m \<in> set (all_elements ks)"
  shows "set (elements m) \<subseteq> set (all_elements ks)"
    "set (map eid (elements m)) \<subseteq> set (forest_ids ks)"
proof -
  obtain k where k: "k \<in> set ks" "m \<in> set (elements k)"
    using assms by (auto simp: all_elements_def)
  have "set (elements m) \<subseteq> set (elements k)" using k(2) by (rule elements_trans)
  then show a: "set (elements m) \<subseteq> set (all_elements ks)"
    using k(1) by (auto simp: all_elements_def)
  show "set (map eid (elements m)) \<subseteq> set (forest_ids ks)"
    using a by (auto simp: forest_ids_def)
qed

lemma ins_mset:
  "distinct (map eid (elements m)) \<Longrightarrow>
     mset (map eid (elements (ins_before r n m))) =
       mset (map eid (elements m)) + (if r \<in> set (forest_ids (kids m)) then mset (map eid (elements n)) else {#})"
  "distinct (forest_ids ks) \<Longrightarrow>
     mset (forest_ids (ins_kids r n ks)) =
       mset (forest_ids ks) + (if r \<in> set (forest_ids ks) then mset (map eid (elements n)) else {#})"
proof (induction m and ks rule: node_forest_induct)
  case (Text s)
  show ?case by simp
next
  case (Elem j t a ks)
  have d: "distinct (forest_ids ks)" using Elem.prems by (simp add: ids_Elem del: elements.simps)
  show ?case using Elem.IH[OF d]
    by (simp add: ins_before_Elem ids_Elem del: elements.simps ins_before.simps)
next
  case Nil
  show ?case by simp
next
  case (Cons k ks)
  have d: "distinct (map eid (elements k))" "distinct (forest_ids ks)"
    "set (map eid (elements k)) \<inter> set (forest_ids ks) = {}"
    using Cons.prems by auto
  show ?case
  proof (cases "has_id r k")
    case True
    then have "is_elem k" by (cases k) auto
    then have "r \<in> set (map eid (elements k))" using True elements_self has_id_in_ids by blast
    then have "r \<notin> set (forest_ids ks)" using d(3) by blast
    then have "ins_kids r n ks = ks" by (rule ins_noop(2))
    then show ?thesis using True \<open>r \<in> set (map eid (elements k))\<close> by simp
  next
    case False
    have rk: "(r \<in> set (map eid (elements k))) = (r \<in> set (forest_ids (kids k)))"
      using False by (cases k) (auto simp: forest_ids_def all_elements_def)
    have "\<not> (r \<in> set (map eid (elements k)) \<and> r \<in> set (forest_ids ks))" using d(3) by blast
    then show ?thesis using False Cons.IH(1)[OF d(1)] Cons.IH(2)[OF d(2)] rk by auto
  qed
qed

lemma inner_subset: "set (inner_ids G) \<subseteq> set (forest_ids G)"
proof (induction G)
  case (Cons a G)
  then show ?case using ids_cases[of a] by auto
qed simp

lemma place_before_Cons: "place_before r n (k # G) = ins_before r n k # place_before r n G"
  by (simp add: place_before_def)

lemma place_before_mset:
  "distinct (forest_ids G) \<Longrightarrow>
     mset (forest_ids (place_before r n G)) =
       mset (forest_ids G) + (if r \<in> set (inner_ids G) then mset (map eid (elements n)) else {#})"
proof (induction G)
  case Nil
  show ?case by (simp add: place_before_def)
next
  case (Cons k G)
  have d: "distinct (map eid (elements k))" "distinct (forest_ids G)"
    "set (map eid (elements k)) \<inter> set (forest_ids G) = {}"
    using Cons.prems by auto
  have sub: "set (forest_ids (kids k)) \<subseteq> set (map eid (elements k))"
    using ids_cases[of k] by blast
  have x: "\<not> (r \<in> set (forest_ids (kids k)) \<and> r \<in> set (inner_ids G))"
    using d(3) sub inner_subset[of G] by blast
  have a: "mset (map eid (elements (ins_before r n k))) =
       mset (map eid (elements k)) + (if r \<in> set (forest_ids (kids k)) then mset (map eid (elements n)) else {#})"
    using ins_mset(1)[OF d(1)] .
  have b: "mset (forest_ids (place_before r n G)) =
       mset (forest_ids G) + (if r \<in> set (inner_ids G) then mset (map eid (elements n)) else {#})"
    using Cons.IH[OF d(2)] .
  have "mset (forest_ids (place_before r n (k # G))) =
      mset (map eid (elements (ins_before r n k))) + mset (forest_ids (place_before r n G))"
    by (simp add: place_before_Cons)
  also have "\<dots> = mset (forest_ids (k # G)) +
      (if r \<in> set (inner_ids (k # G)) then mset (map eid (elements n)) else {#})"
    unfolding a b using x by auto
  finally show ?case .
qed

lemma ins_image:
  "distinct (map eid (elements m)) \<Longrightarrow> m' \<in> set (elements (ins_before r n m)) \<Longrightarrow>
     m' \<in> set (elements n) \<or> (\<exists>m0\<in>set (elements m). m' = ins_before r n m0)"
  "distinct (forest_ids ks) \<Longrightarrow> m' \<in> set (all_elements (ins_kids r n ks)) \<Longrightarrow>
     m' \<in> set (elements n) \<or> (\<exists>m0\<in>set (all_elements ks). m' = ins_before r n m0)"
proof (induction m and ks rule: node_forest_induct)
  case (Text s)
  then show ?case by simp
next
  case (Elem j t a ks)
  have d: "distinct (forest_ids ks)" using Elem.prems(1) by (simp add: ids_Elem del: elements.simps)
  have "m' = ins_before r n (Elem j t a ks) \<or> m' \<in> set (all_elements (ins_kids r n ks))"
    using Elem.prems(2) by (auto simp: ins_before_Elem elements_Elem simp del: elements.simps ins_before.simps)
  then show ?case using Elem.IH[OF d]
    by (auto simp: elements_Elem simp del: elements.simps ins_before.simps)
next
  case Nil
  then show ?case by simp
next
  case (Cons k ks)
  have d: "distinct (map eid (elements k))" "distinct (forest_ids ks)"
    "set (map eid (elements k)) \<inter> set (forest_ids ks) = {}"
    using Cons.prems(1) by auto
  show ?case
  proof (cases "has_id r k")
    case True
    then have ek: "is_elem k" by (cases k) auto
    have rk: "r = eid k" using True ek has_id_eid by simp
    have "m' \<in> set (elements n) \<or> m' \<in> set (elements k) \<or> m' \<in> set (all_elements (ins_kids r n ks))"
      using Cons.prems(2) True by auto
    then consider (a) "m' \<in> set (elements n)" | (b) "m' \<in> set (elements k)"
      | (c) "m' \<in> set (all_elements (ins_kids r n ks))" by blast
    then show ?thesis
    proof cases
      case a
      then show ?thesis by simp
    next
      case b
      have "set (map eid (elements m')) \<subseteq> set (map eid (elements k))"
        using elements_trans[OF b] by auto
      moreover have "r \<notin> set (forest_ids (kids k))"
        using d(1) rk ek ids_is_elem[of k] by auto
      moreover have "set (forest_ids (kids m')) \<subseteq> set (forest_ids (kids k))"
      proof (cases "m' = k")
        case False
        then have "m' \<in> set (all_elements (kids k))" using b ek by (cases k) (auto simp: all_elements_def)
        then have "set (map eid (elements m')) \<subseteq> set (forest_ids (kids k))"
          by (rule all_elements_trans(2))
        then show ?thesis using ids_cases[of m'] by blast
      qed simp
      ultimately have "ins_before r n m' = m'" using ins_noop_kids by blast
      moreover have "m' \<in> set (all_elements (k # ks))" using b by simp
      ultimately show ?thesis by metis
    next
      case c
      then show ?thesis using Cons.IH(2)[OF d(2)] by auto
    qed
  next
    case False
    have "m' \<in> set (elements (ins_before r n k)) \<or> m' \<in> set (all_elements (ins_kids r n ks))"
      using Cons.prems(2) False by auto
    then show ?thesis using Cons.IH(1)[OF d(1)] Cons.IH(2)[OF d(2)] by auto
  qed
qed

lemma place_before_image:
  assumes "distinct (forest_ids G)" "m' \<in> set (all_elements (place_before r n G))"
  shows "m' \<in> set (elements n) \<or> (\<exists>m0\<in>set (all_elements G). m' = ins_before r n m0)"
  using assms
proof (induction G)
  case Nil
  then show ?case by (simp add: place_before_def)
next
  case (Cons k G)
  have d: "distinct (map eid (elements k))" "distinct (forest_ids G)" using Cons.prems(1) by auto
  have "m' \<in> set (elements (ins_before r n k)) \<or> m' \<in> set (all_elements (place_before r n G))"
    using Cons.prems(2) by (auto simp: place_before_def)
  then show ?case using ins_image(1)[OF d(1)] Cons.IH[OF d(2)] by auto
qed

lemma ins_contains:
  "r \<in> set (forest_ids (kids m)) \<Longrightarrow> set (elements n) \<subseteq> set (elements (ins_before r n m))"
  "r \<in> set (forest_ids ks) \<Longrightarrow> set (elements n) \<subseteq> set (all_elements (ins_kids r n ks))"
proof (induction m and ks rule: node_forest_induct)
  case (Text s)
  then show ?case by simp
next
  case (Elem j t a ks)
  then show ?case by (auto simp: ins_before_Elem elements_Elem simp del: elements.simps ins_before.simps)
next
  case Nil
  then show ?case by simp
next
  case (Cons k ks)
  show ?case
  proof (cases "has_id r k")
    case True
    then show ?thesis by auto
  next
    case False
    then have "r \<in> set (forest_ids (kids k)) \<or> r \<in> set (forest_ids ks)"
      using Cons.prems by (cases k) (auto simp: forest_ids_def all_elements_def)
    then show ?thesis using Cons.IH False by auto
  qed
qed

lemma place_before_contains:
  "r \<in> set (inner_ids G) \<Longrightarrow> set (elements n) \<subseteq> set (all_elements (place_before r n G))"
proof (induction G)
  case Nil
  then show ?case by simp
next
  case (Cons k G)
  then show ?case using ins_contains(1)[of r k n] by (auto simp: place_before_def)
qed

lemma place_before_distinct:
  assumes d: "distinct (forest_ids G)" "distinct (map eid (elements n))"
      "set (map eid (elements n)) \<inter> set (forest_ids G) = {}"
  shows "distinct (forest_ids (place_before r n G))"
proof (cases "r \<in> set (inner_ids G)")
  case True
  then have "mset (forest_ids (place_before r n G)) = mset (forest_ids G) + mset (map eid (elements n))"
    using place_before_mset[OF d(1)] by simp
  then have "distinct (forest_ids (place_before r n G)) = distinct (forest_ids G @ map eid (elements n))"
    by (rule distinct_mset_split)
  then show ?thesis using d by auto
next
  case False
  then have "mset (forest_ids (place_before r n G)) = mset (forest_ids G)"
    using place_before_mset[OF d(1)] by simp
  then show ?thesis using d(1) mset_eq_imp_distinct_iff by blast
qed

lemma place_before_find_old:
  assumes d: "distinct (forest_ids G)" "distinct (map eid (elements n))"
      "set (map eid (elements n)) \<inter> set (forest_ids G) = {}"
    and m: "find_node j G = Some m"
  shows "find_node j (place_before r n G) = Some (ins_before r n m)"
proof (rule find_node_via)
  show "distinct (forest_ids (place_before r n G))" using place_before_distinct[OF d] .
  have "set (forest_ids G) \<subseteq> set (forest_ids (place_before r n G))"
    using arg_cong[OF place_before_mset[OF d(1), of r n], of set_mset] by auto
  then show "j \<in> set (forest_ids (place_before r n G))" using find_node_in_ids[OF m] by blast
  fix m' assume m': "m' \<in> set (all_elements (place_before r n G))" "eid m' = j"
  have jG: "j \<in> set (forest_ids G)" using find_node_in_ids[OF m] .
  from place_before_image[OF d(1) m'(1)]
  show "m' = ins_before r n m"
  proof
    assume "m' \<in> set (elements n)"
    then have "j \<in> set (map eid (elements n))" using m'(2) by force
    then show ?thesis using d(3) jG by blast
  next
    assume "\<exists>m0\<in>set (all_elements G). m' = ins_before r n m0"
    then obtain m0 where m0: "m0 \<in> set (all_elements G)" "m' = ins_before r n m0" by blast
    then have "eid m0 = j" using m'(2) by simp
    then have "find_node j G = Some m0" using find_node_distinct[of G m0] d(1) m0(1)
      by (simp add: distinct_ids_def forest_ids_def)
    then show ?thesis using m m0(2) by simp
  qed
qed

lemma place_before_find_new:
  assumes d: "distinct (forest_ids G)" "distinct (map eid (elements n))"
      "set (map eid (elements n)) \<inter> set (forest_ids G) = {}"
    and r: "r \<in> set (inner_ids G)" and x: "x \<in> set (elements n)"
  shows "find_node (eid x) (place_before r n G) = Some x"
proof -
  have "x \<in> set (all_elements (place_before r n G))" using place_before_contains[OF r] x by blast
  moreover have "distinct_ids (place_before r n G)"
    using place_before_distinct[OF d] by (simp add: distinct_ids_def forest_ids_def)
  ultimately show ?thesis by (simp add: find_node_distinct)
qed

subsection \<open>Well-formed states; parents\<close>

lemma well_formed_alt:
  "well_formed s = (distinct (forest_ids (roots s)) \<and> (\<forall>j\<in>set (forest_ids (roots s)). j < fresh s))"
  by (auto simp: well_formed_def distinct_ids_def forest_ids_def list_all_iff)

lemma node_at_wf: "well_formed s \<Longrightarrow> m \<in> set (all_elements (roots s)) \<Longrightarrow> node_at s (eid m) = Some m"
  by (simp add: well_formed_def node_at_def find_node_distinct)

lemma node_at_in: "node_at s i = Some n \<Longrightarrow> n \<in> set (all_elements (roots s)) \<and> is_elem n \<and> eid n = i"
  unfolding node_at_def by (rule find_node_SomeD)

lemma node_at_ids: "(node_at s i \<noteq> None) = (i \<in> set (forest_ids (roots s)))"
  by (simp add: node_at_def find_node_None_iff)

lemma upd_at:
  "is_elem m \<Longrightarrow> eid m = i \<Longrightarrow> upd i f m = f m"
  by (cases m) auto

lemma upd_attr_top:
  assumes "attr_only f"
  shows "eid (upd i f m) = eid m" "tag (upd i f m) = tag m" "is_elem (upd i f m) = is_elem m"
    "has_id j (upd i f m) = has_id j m" "eid m \<noteq> i \<Longrightarrow> attrs (upd i f m) = attrs m"
proof -
  have c: "(\<exists>j t a a' ks. m = Elem j t a ks \<and> f m = Elem j t a' ks) \<or> (\<exists>s. m = Text s)"
  proof (cases m)
    case (Elem j t a ks)
    then show ?thesis using attr_only_Elem(1)[OF assms, of j t a ks] by auto
  qed simp
  show "eid (upd i f m) = eid m" using c by auto
  show "tag (upd i f m) = tag m" using c by auto
  show "is_elem (upd i f m) = is_elem m" using c by auto
  show "has_id j (upd i f m) = has_id j m" using c by (auto split: if_splits)
  show "eid m \<noteq> i \<Longrightarrow> attrs (upd i f m) = attrs m" using c by auto
qed

lemma kids_upd_attr:
  assumes "attr_only f"
  shows "kids (upd i f m) = (if has_id i m then kids m else map (upd i f) (kids m))"
proof (cases m)
  case (Elem j t a ks)
  obtain a' where "f (Elem j t a ks) = Elem j t a' ks" using attr_only_Elem(1)[OF assms] by blast
  then show ?thesis using Elem by simp
qed simp

lemma wf_modify:
  assumes "attr_only f" "well_formed s"
  shows "well_formed (modify i f s)"
  using assms(2) ids_upd_attr(2)[OF assms(1), of i "roots s"]
  by (simp add: well_formed_alt modify_def)

lemma node_at_modify:
  assumes "attr_only f" "well_formed s"
  shows "node_at (modify i f s) j = map_option (upd i f) (node_at s j)"
proof -
  have d: "distinct (forest_ids (roots s))" using assms(2) by (simp add: well_formed_alt)
  have "has_id j \<circ> upd i f = has_id j" using upd_attr_top(4)[OF assms(1)] by (simp add: fun_eq_iff)
  then show ?thesis
    unfolding node_at_def find_node_def modify_def
    by (simp add: elements_upd_attr(2)[OF assms(1) d] find_map)
qed

lemma roots_modify: "roots (modify i f s) = map (upd i f) (roots s)"
  by (simp add: modify_def)

lemma wf_createElement:
  assumes "well_formed s"
  shows "well_formed (createElement t s)"
  using assms by (auto simp: well_formed_alt createElement_def)

lemma node_at_createElement:
  assumes "well_formed s"
  shows "node_at (createElement t s) j = (if j = fresh s then Some (Elem (fresh s) t [] []) else node_at s j)"
proof (cases "j = fresh s")
  case True
  have "fresh s \<notin> set (forest_ids (roots s))" using assms by (auto simp: well_formed_alt)
  then have "find_node (fresh s) (roots s) = None" by (simp add: find_node_None_iff)
  then show ?thesis using True
    by (simp add: node_at_def createElement_def find_node_def find_append)
next
  case False
  then show ?thesis
    by (simp add: node_at_def createElement_def find_node_def find_append split: option.splits)
qed

text \<open>Children.\<close>

lemma kids_inner:
  "p \<in> set (elements m) \<Longrightarrow> set (forest_ids (kids p)) \<subseteq> set (forest_ids (kids m))"
proof -
  assume p: "p \<in> set (elements m)"
  show ?thesis
  proof (cases "p = m")
    case False
    then have "p \<in> set (all_elements (kids m))" using p by (cases m) (auto simp: all_elements_def)
    then have "set (map eid (elements p)) \<subseteq> set (forest_ids (kids m))" by (rule all_elements_trans(2))
    then show ?thesis using ids_cases[of p] by blast
  qed simp
qed

lemma kids_inner_forest:
  "p \<in> set (all_elements F) \<Longrightarrow> set (forest_ids (kids p)) \<subseteq> set (inner_ids F)"
proof (induction F)
  case (Cons k F)
  then show ?case using kids_inner[of p k] by auto
qed simp

lemma kid_id: "k \<in> set (kids p) \<Longrightarrow> has_id x k \<Longrightarrow> x \<in> set (forest_ids (kids p))"
proof -
  assume k: "k \<in> set (kids p)" "has_id x k"
  have "is_elem k" using k(2) by (cases k) auto
  then have "k \<in> set (all_elements (kids p))" using k(1) all_elements_mono elements_self by blast
  moreover have "eid k = x" using k(2) \<open>is_elem k\<close> has_id_eid by simp
  ultimately show ?thesis by (force simp: forest_ids_def)
qed

lemma element_is_root_or_kid:
  "m \<in> set (elements n) \<Longrightarrow> m = n \<or> (\<exists>p\<in>set (elements n). m \<in> set (kids p))"
  "m \<in> set (all_elements ks) \<Longrightarrow> m \<in> set ks \<or> (\<exists>p\<in>set (all_elements ks). m \<in> set (kids p))"
proof (induction n and ks rule: node_forest_induct)
  case (Text s)
  then show ?case by simp
next
  case (Elem j t a ks)
  have "m = Elem j t a ks \<or> m \<in> set (all_elements ks)"
    using Elem.prems by (simp add: elements_Elem del: elements.simps)
  then show ?case
  proof
    assume "m \<in> set (all_elements ks)"
    then have "m \<in> set ks \<or> (\<exists>p\<in>set (all_elements ks). m \<in> set (kids p))" by (rule Elem.IH)
    then show ?thesis
    proof
      assume "m \<in> set ks"
      then have "m \<in> set (kids (Elem j t a ks))" by simp
      then show ?thesis using elements_self[of "Elem j t a ks"] by (metis is_elem.simps(1))
    next
      assume "\<exists>p\<in>set (all_elements ks). m \<in> set (kids p)"
      then show ?thesis by (auto simp: elements_Elem simp del: elements.simps)
    qed
  qed simp
next
  case Nil
  then show ?case by simp
next
  case (Cons k ks)
  then show ?case by auto
qed

lemma parent_of_iff:
  "(parent_of x F \<noteq> None) = (x \<in> set (inner_ids F))"
proof
  assume "parent_of x F \<noteq> None"
  then obtain p where "parent_of x F = Some p" by blast
  then have p: "p \<in> set (all_elements F)" "list_ex (has_id x) (kids p)"
    unfolding parent_of_def by (auto dest: find_SomeD)
  then obtain k where "k \<in> set (kids p)" "has_id x k" by (auto simp: list_ex_iff)
  then have "x \<in> set (forest_ids (kids p))" by (rule kid_id)
  then show "x \<in> set (inner_ids F)" using kids_inner_forest[OF p(1)] by blast
next
  assume "x \<in> set (inner_ids F)"
  then obtain r where r: "r \<in> set F" "x \<in> set (forest_ids (kids r))" by (auto simp: inner_ids_def)
  then obtain m where m: "m \<in> set (all_elements (kids r))" "eid m = x" by (auto simp: forest_ids_def)
  have em: "is_elem m" using m(1) by (rule all_elements_is_elem)
  have er: "is_elem r" using r(2) by (cases r) auto
  have rF: "r \<in> set (all_elements F)" using r(1) er all_elements_mono elements_self by blast
  have "set (all_elements (kids r)) \<subseteq> set (elements r)"
    using descendants_subset[of r] by (simp add: descendants_def all_elements_def)
  then have sub: "set (all_elements (kids r)) \<subseteq> set (all_elements F)"
    using all_elements_mono[OF r(1)] by blast
  from element_is_root_or_kid(2)[OF m(1)]
  have "\<exists>p\<in>set (all_elements F). m \<in> set (kids p)" using rF sub by blast
  then obtain p where p: "p \<in> set (all_elements F)" "m \<in> set (kids p)" by blast
  have "has_id x m" using em m(2) has_id_eid by simp
  then have "list_ex (has_id x) (kids p)" using p(2) by (auto simp: list_ex_iff)
  then show "parent_of x F \<noteq> None"
    unfolding parent_of_def using p(1) by (auto simp: find_None_iff)
qed

lemma parent_of_SomeD:
  "parent_of x F = Some p \<Longrightarrow> p \<in> set (all_elements F) \<and> (\<exists>k\<in>set (kids p). has_id x k)"
  unfolding parent_of_def by (auto dest!: find_SomeD simp: list_ex_iff)

lemma inner_ids_upd_attr:
  assumes "attr_only f"
  shows "inner_ids (map (upd i f) F) = inner_ids F"
proof (induction F)
  case (Cons k F)
  have "forest_ids (kids (upd i f k)) = forest_ids (kids k)"
    using kids_upd_attr[OF assms, of i k] ids_upd_attr(2)[OF assms] by simp
  then show ?case using Cons by simp
qed simp

lemma inner_ids_append [simp]: "inner_ids (F @ G) = inner_ids F @ inner_ids G"
  by (simp add: inner_ids_def)

subsection \<open>Moving a subtree under a new parent\<close>

lemma detach_split:
  assumes d: "distinct (forest_ids F)" and e: "find_node i F = Some e"
  shows "distinct (forest_ids (detach i F))" "distinct (map eid (elements e))"
    "set (map eid (elements e)) \<inter> set (forest_ids (detach i F)) = {}"
    "set (forest_ids F) = set (forest_ids (detach i F)) \<union> set (map eid (elements e))"
proof -
  have eq: "mset (forest_ids F) = mset (forest_ids (detach i F)) + mset (map eid (elements e))"
    using detach_mset(2)[OF d] e by (simp add: find_node_def)
  then have "distinct (forest_ids (detach i F) @ map eid (elements e))"
    using distinct_mset_split d by blast
  then show "distinct (forest_ids (detach i F))" "distinct (map eid (elements e))"
    "set (map eid (elements e)) \<inter> set (forest_ids (detach i F)) = {}"
    by auto
  show "set (forest_ids F) = set (forest_ids (detach i F)) \<union> set (map eid (elements e))"
    using arg_cong[OF eq, of set_mset] by simp
qed

lemma move_place:
  assumes g: "\<And>j t a ks. g (Elem j t a ks) = Elem j t a (h ks)"
    and h: "\<And>ks. mset (forest_ids (h ks)) = mset (forest_ids ks) + mset (map eid (elements e))"
    and h': "\<And>ks. set (all_elements (h ks)) = set (all_elements ks) \<union> set (elements e)"
    and d: "distinct (forest_ids F)" and e: "find_node i F = Some e"
    and p: "find_node p F = Some pn" and out: "p \<notin> set (map eid (elements e))"
  shows "distinct (forest_ids (map (upd p g) (detach i F)))"
    "set (forest_ids (map (upd p g) (detach i F))) = set (forest_ids F)"
    "find_node p (map (upd p g) (detach i F)) = Some (g (prune i pn))"
    "x \<in> set (elements e) \<Longrightarrow> find_node (eid x) (map (upd p g) (detach i F)) = Some x"
    "find_node j F = Some m \<Longrightarrow> j \<notin> set (map eid (elements e)) \<Longrightarrow>
       find_node j (map (upd p g) (detach i F)) = Some (upd p g (prune i m))"
proof -
  note s = detach_split[OF d e]
  have pG: "find_node p (detach i F) = Some (prune i pn)" using detach_survivor[OF d e p out] .
  then have pin: "p \<in> set (forest_ids (detach i F))" by (rule find_node_in_ids)
  show "distinct (forest_ids (map (upd p g) (detach i F)))"
    using place_distinct[OF g h s(1) s(2) s(3)] .
  have eq: "mset (forest_ids (map (upd p g) (detach i F))) =
      mset (forest_ids (detach i F)) + mset (map eid (elements e))"
    using place_mset(2)[OF g h s(1), of p] pin by simp
  have "set (forest_ids (map (upd p g) (detach i F))) =
      set (forest_ids (detach i F)) \<union> set (map eid (elements e))"
    using arg_cong[OF eq, of set_mset] by simp
  then show "set (forest_ids (map (upd p g) (detach i F))) = set (forest_ids F)"
    using s(4) by simp
  have "find_node p (map (upd p g) (detach i F)) = Some (upd p g (prune i pn))"
    using place_find_old[OF g h h' s(1) s(2) s(3) pG] .
  moreover have "is_elem (prune i pn)" "eid (prune i pn) = p"
    using find_node_SomeD[OF p] by simp_all
  ultimately show "find_node p (map (upd p g) (detach i F)) = Some (g (prune i pn))"
    by (simp add: upd_at)
  show "find_node (eid x) (map (upd p g) (detach i F)) = Some x" if "x \<in> set (elements e)"
    using place_find_new[OF g h h' s(1) s(2) s(3) pin that] .
  show "find_node j (map (upd p g) (detach i F)) = Some (upd p g (prune i m))"
    if "find_node j F = Some m" "j \<notin> set (map eid (elements e))"
    using place_find_old[OF g h h' s(1) s(2) s(3) detach_survivor[OF d e that]] .
qed

lemma move_last_props:
  assumes wf: "well_formed s" and e: "node_at s i = Some e"
    and p: "node_at s p = Some pn" and out: "p \<notin> set (map eid (elements e))"
  shows "well_formed (move_last p i s)"
    "node_at (move_last p i s) p = Some (add_last e (prune i pn))"
    "x \<in> set (elements e) \<Longrightarrow> node_at (move_last p i s) (eid x) = Some x"
    "node_at s j = Some m \<Longrightarrow> j \<notin> set (map eid (elements e)) \<Longrightarrow>
       node_at (move_last p i s) j = Some (upd p (add_last e) (prune i m))"
proof -
  have d: "distinct (forest_ids (roots s))" using wf by (simp add: well_formed_alt)
  have r: "roots (move_last p i s) = map (upd p (add_last e)) (detach i (roots s))"
    "fresh (move_last p i s) = fresh s"
    using e by (simp_all add: move_last_def place_last_def)
  note m = move_place[where g = "add_last e" and h = "\<lambda>ks. ks @ [e]", OF _ _ _ d e[unfolded node_at_def]
      p[unfolded node_at_def] out, simplified]
  show "well_formed (move_last p i s)"
    using wf m(1,2) by (simp add: well_formed_alt r)
  show "node_at (move_last p i s) p = Some (add_last e (prune i pn))"
    using m(3) by (simp add: node_at_def r)
  show "node_at (move_last p i s) (eid x) = Some x" if "x \<in> set (elements e)"
    using m(4)[OF that] by (simp add: node_at_def r)
  show "node_at (move_last p i s) j = Some (upd p (add_last e) (prune i m))"
    if "node_at s j = Some m" "j \<notin> set (map eid (elements e))"
    using m(5)[OF that(1)[unfolded node_at_def]] that(2) by (simp add: node_at_def r)
qed

lemma move_first_props:
  assumes wf: "well_formed s" and e: "node_at s i = Some e"
    and p: "node_at s p = Some pn" and out: "p \<notin> set (map eid (elements e))"
  shows "well_formed (move_first p i s)"
    "node_at (move_first p i s) p = Some (add_first e (prune i pn))"
    "x \<in> set (elements e) \<Longrightarrow> node_at (move_first p i s) (eid x) = Some x"
    "node_at s j = Some m \<Longrightarrow> j \<notin> set (map eid (elements e)) \<Longrightarrow>
       node_at (move_first p i s) j = Some (upd p (add_first e) (prune i m))"
proof -
  have d: "distinct (forest_ids (roots s))" using wf by (simp add: well_formed_alt)
  have r: "roots (move_first p i s) = map (upd p (add_first e)) (detach i (roots s))"
    "fresh (move_first p i s) = fresh s"
    using e by (simp_all add: move_first_def place_first_def)
  have h: "\<And>ks. mset (forest_ids (e # ks)) = mset (forest_ids ks) + mset (map eid (elements e))"
    "\<And>ks. set (all_elements (e # ks)) = set (all_elements ks) \<union> set (elements e)"
    by auto
  note m = move_place[where g = "add_first e" and h = "\<lambda>ks. e # ks", OF _ h d e[unfolded node_at_def]
      p[unfolded node_at_def] out, simplified]
  show "well_formed (move_first p i s)"
    using wf m(1,2) by (simp add: well_formed_alt r)
  show "node_at (move_first p i s) p = Some (add_first e (prune i pn))"
    using m(3) by (simp add: node_at_def r)
  show "node_at (move_first p i s) (eid x) = Some x" if "x \<in> set (elements e)"
    using m(4)[OF that] by (simp add: node_at_def r)
  show "node_at (move_first p i s) j = Some (upd p (add_first e) (prune i m))"
    if "node_at s j = Some m" "j \<notin> set (map eid (elements e))"
    using m(5)[OF that(1)[unfolded node_at_def]] that(2) by (simp add: node_at_def r)
qed

subsection \<open>Moving a subtree before a sibling\<close>

lemma in_subtree_by_id:
  assumes d: "distinct (forest_ids F)" and e: "e \<in> set (all_elements F)"
    and p: "p \<in> set (all_elements F)" and i: "eid p \<in> set (map eid (elements e))"
  shows "p \<in> set (elements e)"
proof -
  obtain q where q: "q \<in> set (elements e)" "eid q = eid p" using i by auto
  have "q \<in> set (all_elements F)" using all_elements_trans(1)[OF e] q(1) by blast
  then have a: "find_node (eid q) F = Some q" using d find_node_distinct[of F q]
    by (simp add: distinct_ids_def forest_ids_def)
  have b: "find_node (eid p) F = Some p" using d p find_node_distinct[of F p]
    by (simp add: distinct_ids_def forest_ids_def)
  have "q = p" using a b q(2) by (metis option.inject)
  then show ?thesis using q(1) by blast
qed

lemma prune_kid: "k \<in> set ks \<Longrightarrow> \<not> has_id i k \<Longrightarrow> prune i k \<in> set (detach i ks)"
  by (induction ks) auto

lemma kids_prune: "kids (prune i m) = detach i (kids m)"
  by (cases m) (simp_all add: detach_def)

lemma inner_survives:
  assumes d: "distinct (forest_ids F)" and e: "find_node i F = Some e"
    and r: "r \<in> set (inner_ids F)" and out: "r \<notin> set (map eid (elements e))"
  shows "r \<in> set (inner_ids (detach i F))"
proof -
  from r obtain p where "parent_of r F = Some p" using parent_of_iff[of r F] by auto
  then obtain k where p: "p \<in> set (all_elements F)" and k: "k \<in> set (kids p)" "has_id r k"
    using parent_of_SomeD by blast
  have eF: "e \<in> set (all_elements F)" using find_node_SomeD[OF e] by simp
  have ek: "is_elem k" using k(2) by (cases k) auto
  have pout: "eid p \<notin> set (map eid (elements e))"
  proof
    assume "eid p \<in> set (map eid (elements e))"
    then have "p \<in> set (elements e)" using in_subtree_by_id[OF d eF p] by simp
    then have "set (forest_ids (kids p)) \<subseteq> set (forest_ids (kids e))" by (rule kids_inner)
    moreover have "r \<in> set (forest_ids (kids p))" using k by (rule kid_id)
    ultimately have "r \<in> set (map eid (elements e))" using ids_cases[of e] by blast
    then show False using out by simp
  qed
  have "find_node (eid p) F = Some p" using d p find_node_distinct[of F p]
    by (simp add: distinct_ids_def forest_ids_def)
  then have "find_node (eid p) (detach i F) = Some (prune i p)"
    using detach_survivor[OF d e _ pout] by simp
  then have pp: "prune i p \<in> set (all_elements (detach i F))" using find_node_SomeD by blast
  have "i \<in> set (map eid (elements e))"
    using find_node_SomeD[OF e] elements_self[of e] by force
  then have "\<not> has_id i k" using out k(2) ek has_id_eid by auto
  then have "prune i k \<in> set (kids (prune i p))" using k(1) prune_kid by (simp add: kids_prune)
  moreover have "has_id r (prune i k)" using k(2) by simp
  ultimately have "r \<in> set (forest_ids (kids (prune i p)))" by (rule kid_id)
  then show ?thesis using kids_inner_forest[OF pp] by blast
qed

lemma move_before_props:
  assumes wf: "well_formed s" and e: "node_at s i = Some e"
    and r: "r \<in> set (inner_ids (roots s))" and out: "r \<notin> set (map eid (elements e))"
  shows "well_formed (move_before r i s)"
    "x \<in> set (elements e) \<Longrightarrow> node_at (move_before r i s) (eid x) = Some x"
    "node_at s j = Some m \<Longrightarrow> j \<notin> set (map eid (elements e)) \<Longrightarrow>
       node_at (move_before r i s) j = Some (ins_before r e (prune i m))"
proof -
  have d: "distinct (forest_ids (roots s))" using wf by (simp add: well_formed_alt)
  have rt: "roots (move_before r i s) = place_before r e (detach i (roots s))"
    "fresh (move_before r i s) = fresh s"
    using e by (simp_all add: move_before_def)
  note e' = e[unfolded node_at_def]
  note sp = detach_split[OF d e']
  have rin: "r \<in> set (inner_ids (detach i (roots s)))" using inner_survives[OF d e' r out] .
  have dist: "distinct (forest_ids (place_before r e (detach i (roots s))))"
    using place_before_distinct[OF sp(1) sp(2) sp(3)] .
  have eq: "mset (forest_ids (place_before r e (detach i (roots s)))) =
      mset (forest_ids (detach i (roots s))) + mset (map eid (elements e))"
    using place_before_mset[OF sp(1), of r e] rin by simp
  have "set (forest_ids (place_before r e (detach i (roots s)))) =
      set (forest_ids (detach i (roots s))) \<union> set (map eid (elements e))"
    using arg_cong[OF eq, of set_mset] by simp
  then have ids: "set (forest_ids (place_before r e (detach i (roots s)))) = set (forest_ids (roots s))"
    using sp(4) by simp
  show "well_formed (move_before r i s)"
    using wf dist ids by (simp add: well_formed_alt rt)
  show "node_at (move_before r i s) (eid x) = Some x" if "x \<in> set (elements e)"
    using place_before_find_new[OF sp(1) sp(2) sp(3) rin that] by (simp add: node_at_def rt)
  show "node_at (move_before r i s) j = Some (ins_before r e (prune i m))"
    if "node_at s j = Some m" "j \<notin> set (map eid (elements e))"
    using place_before_find_old[OF sp(1) sp(2) sp(3) detach_survivor[OF d e' that(1)[unfolded node_at_def] that(2)]]
    by (simp add: node_at_def rt)
qed

lemma adjacent_Cons: "adjacent a b ks \<Longrightarrow> adjacent a b (k # ks)"
  by (cases ks) auto

lemma ins_kids_adjacent:
  "has_id a n \<Longrightarrow> k \<in> set ks \<Longrightarrow> has_id r k \<Longrightarrow> adjacent a r (ins_kids r n ks)"
proof (induction ks)
  case (Cons k0 ks)
  show ?case
  proof (cases "has_id r k0")
    case True
    then show ?thesis using Cons.prems(1) by simp
  next
    case False
    then have "k \<in> set ks" using Cons.prems(2,3) by auto
    then have "adjacent a r (ins_kids r n ks)" using Cons.IH Cons.prems(1,3) by simp
    then show ?thesis using False by (simp add: adjacent_Cons)
  qed
qed simp

lemma adjacent_map:
  assumes "\<And>i m. has_id i (f m) = has_id i m"
  shows "adjacent a b (map f ks) = adjacent a b ks"
  by (induction a b ks rule: adjacent.induct) (simp_all add: assms)

lemma kids_ins_before: "kids (ins_before r n m) = ins_kids r n (kids m)"
  by (cases m) (simp_all add: ins_kids_def)

subsection \<open>An element has one parent\<close>

lemma roots_inner_mset:
  "mset (forest_ids ks) = mset (map eid (filter is_elem ks)) + mset (inner_ids ks)"
proof (induction ks)
  case (Cons k ks)
  show ?case
  proof (cases "is_elem k")
    case True
    then show ?thesis using Cons ids_is_elem[of k] by simp
  next
    case False
    then have "elements k = []" "kids k = []" by (cases k; simp)+
    then show ?thesis using Cons False by simp
  qed
qed simp

lemma roots_inner_disjoint:
  assumes "distinct (forest_ids ks)" "k \<in> set ks" "has_id x k"
  shows "x \<notin> set (inner_ids ks)"
proof -
  have "is_elem k" using assms(3) by (cases k) auto
  then have "x \<in> set (map eid (filter is_elem ks))" using assms(2,3) has_id_eid by force
  moreover have "distinct (map eid (filter is_elem ks) @ inner_ids ks)"
    using distinct_mset_split[OF roots_inner_mset] assms(1) by blast
  ultimately show ?thesis by auto
qed

lemma parent_unique:
  "distinct (map eid (elements n)) \<Longrightarrow> p \<in> set (elements n) \<Longrightarrow> p' \<in> set (elements n) \<Longrightarrow>
     k \<in> set (kids p) \<Longrightarrow> has_id x k \<Longrightarrow> k' \<in> set (kids p') \<Longrightarrow> has_id x k' \<Longrightarrow> p = p'"
  "distinct (forest_ids ks) \<Longrightarrow> p \<in> set (all_elements ks) \<Longrightarrow> p' \<in> set (all_elements ks) \<Longrightarrow>
     k \<in> set (kids p) \<Longrightarrow> has_id x k \<Longrightarrow> k' \<in> set (kids p') \<Longrightarrow> has_id x k' \<Longrightarrow> p = p'"
proof (induction n and ks arbitrary: p p' k k' and p p' k k' rule: node_forest_induct)
  case (Text s)
  then show ?case by simp
next
  case (Elem j t a ks)
  let ?n = "Elem j t a ks"
  have d: "distinct (forest_ids ks)" using Elem.prems(1) by (simp add: ids_Elem del: elements.simps)
  have c: "p = ?n \<or> p \<in> set (all_elements ks)" "p' = ?n \<or> p' \<in> set (all_elements ks)"
    using Elem.prems(2,3) by (simp_all add: elements_Elem del: elements.simps)
  have clash: False
    if "q \<in> set (all_elements ks)" "c1 \<in> set ks" "has_id x c1" "c2 \<in> set (kids q)" "has_id x c2"
    for q c1 c2
  proof -
    have "x \<in> set (forest_ids (kids q))" using that(4,5) by (rule kid_id)
    then have "x \<in> set (inner_ids ks)" using kids_inner_forest[OF that(1)] by blast
    then show False using roots_inner_disjoint[OF d that(2,3)] by simp
  qed
  from c show ?case
  proof (elim disjE)
    assume "p = ?n" "p' = ?n"
    then show ?thesis by simp
  next
    assume "p = ?n" "p' \<in> set (all_elements ks)"
    then show ?thesis using clash[of p' k k'] Elem.prems(4-7) by auto
  next
    assume "p \<in> set (all_elements ks)" "p' = ?n"
    then show ?thesis using clash[of p k' k] Elem.prems(4-7) by auto
  next
    assume "p \<in> set (all_elements ks)" "p' \<in> set (all_elements ks)"
    then show ?thesis using Elem.IH[OF d _ _ Elem.prems(4-7)] by blast
  qed
next
  case Nil
  then show ?case by simp
next
  case (Cons c ks)
  have d: "distinct (map eid (elements c))" "distinct (forest_ids ks)"
    "set (map eid (elements c)) \<inter> set (forest_ids ks) = {}"
    using Cons.prems(1) by auto
  have c: "p \<in> set (elements c) \<or> p \<in> set (all_elements ks)"
    "p' \<in> set (elements c) \<or> p' \<in> set (all_elements ks)"
    using Cons.prems(2,3) by auto
  have clash: False
    if "q \<in> set (elements c)" "q' \<in> set (all_elements ks)" "c1 \<in> set (kids q)" "has_id x c1"
      "c2 \<in> set (kids q')" "has_id x c2" for q q' c1 c2
  proof -
    have "x \<in> set (forest_ids (kids q))" using that(3,4) by (rule kid_id)
    then have "x \<in> set (forest_ids (kids c))" using kids_inner[OF that(1)] by blast
    then have a: "x \<in> set (map eid (elements c))" using ids_cases[of c] by blast
    have "x \<in> set (forest_ids (kids q'))" using that(5,6) by (rule kid_id)
    then have "x \<in> set (inner_ids ks)" using kids_inner_forest[OF that(2)] by blast
    then have "x \<in> set (forest_ids ks)" using inner_subset by blast
    then show False using a d(3) by blast
  qed
  from c show ?case
  proof (elim disjE)
    assume "p \<in> set (elements c)" "p' \<in> set (elements c)"
    then show ?thesis using Cons.IH(1)[OF d(1) _ _ Cons.prems(4-7)] by blast
  next
    assume "p \<in> set (elements c)" "p' \<in> set (all_elements ks)"
    then show ?thesis using clash[of p p' k k'] Cons.prems(4-7) by blast
  next
    assume "p \<in> set (all_elements ks)" "p' \<in> set (elements c)"
    then show ?thesis using clash[of p' p k' k] Cons.prems(4-7) by blast
  next
    assume "p \<in> set (all_elements ks)" "p' \<in> set (all_elements ks)"
    then show ?thesis using Cons.IH(2)[OF d(2) _ _ Cons.prems(4-7)] by blast
  qed
qed

lemma parent_of_unique:
  assumes "distinct (forest_ids F)" "p \<in> set (all_elements F)" "k \<in> set (kids p)" "has_id x k"
  shows "parent_of x F = Some p"
proof -
  have "x \<in> set (forest_ids (kids p))" using assms(3,4) by (rule kid_id)
  then have "x \<in> set (inner_ids F)" using kids_inner_forest[OF assms(2)] by blast
  then obtain p' where p': "parent_of x F = Some p'" using parent_of_iff[of x F] by auto
  then obtain k' where "p' \<in> set (all_elements F)" "k' \<in> set (kids p')" "has_id x k'"
    using parent_of_SomeD by blast
  then have "p' = p" using parent_unique(2)[OF assms(1) _ assms(2) _ _ assms(3,4)] by blast
  then show ?thesis using p' by simp
qed

subsection \<open>Observations and insertAdjacentElement\<close>

lemma list_ex_has_id: "list_ex (has_id i) (elements e) = (i \<in> set (map eid (elements e)))"
proof -
  have "(\<exists>x\<in>set (elements e). has_id i x) = (i \<in> eid ` set (elements e))"
    using elements_is_elem has_id_eid by (metis image_iff)
  then show ?thesis by (simp add: list_ex_iff)
qed

lemma node_at_setTimeout [simp]: "node_at (setTimeout tk d s) j = node_at s j"
  by (simp add: node_at_def setTimeout_def)

lemma roots_setTimeout [simp]: "roots (setTimeout tk d s) = roots s"
  by (simp add: setTimeout_def)

lemma wf_setTimeout [simp]: "well_formed (setTimeout tk d s) = well_formed s"
  by (simp add: well_formed_def setTimeout_def)

lemma parent_of_modify:
  assumes "attr_only f" "well_formed s"
  shows "parent_of x (roots (modify i f s)) = map_option (upd i f) (parent_of x (roots s))"
proof -
  have d: "distinct (forest_ids (roots s))" using assms(2) by (simp add: well_formed_alt)
  have "list_ex (has_id x) (kids (upd i f p)) = list_ex (has_id x) (kids p)" for p
    using kids_upd_attr[OF assms(1), of i p] upd_attr_top(4)[OF assms(1)]
    by (simp add: list_ex_iff)
  then have "(\<lambda>p. list_ex (has_id x) (kids p)) \<circ> upd i f = (\<lambda>p. list_ex (has_id x) (kids p))"
    by (simp add: fun_eq_iff)
  then show ?thesis
    unfolding parent_of_def modify_def
    by (simp add: elements_upd_attr(2)[OF assms(1) d] find_map)
qed

lemma observe_modify:
  assumes "attr_only f" "well_formed s"
  shows "first_child (modify i f s) p a = first_child s p a"
    "last_child (modify i f s) p a = last_child s p a"
    "previous_sibling (modify i f s) a b = previous_sibling s a b"
proof -
  note h = upd_attr_top(4)[OF assms(1)]
  have k: "kids (upd i f n) = kids n \<or> kids (upd i f n) = map (upd i f) (kids n)" for n
    using kids_upd_attr[OF assms(1), of i n] by auto
  have fc: "(case kids (upd i f n) of k # ks \<Rightarrow> has_id a k | [] \<Rightarrow> False)
      = (case kids n of k # ks \<Rightarrow> has_id a k | [] \<Rightarrow> False)" for n
    using k[of n] h by (auto split: list.splits)
  have lc: "(kids (upd i f n) \<noteq> [] \<and> has_id a (last (kids (upd i f n))))
      = (kids n \<noteq> [] \<and> has_id a (last (kids n)))" for n
    using k[of n] h by (auto simp: last_map)
  have ad: "adjacent a b (kids (upd i f n)) = adjacent a b (kids n)" for n
    using k[of n] adjacent_map[of "upd i f" a b "kids n"] h by auto
  show "first_child (modify i f s) p a = first_child s p a"
    unfolding first_child_def node_at_modify[OF assms]
    by (cases "node_at s p") (simp_all add: fc)
  show "last_child (modify i f s) p a = last_child s p a"
    unfolding last_child_def node_at_modify[OF assms]
    by (cases "node_at s p") (simp_all add: lc)
  show "previous_sibling (modify i f s) a b = previous_sibling s a b"
    unfolding previous_sibling_def parent_of_modify[OF assms]
    by (cases "parent_of b (roots s)") (simp_all add: ad)
qed

lemma observe_setTimeout [simp]:
  "first_child (setTimeout tk d s) p a = first_child s p a"
  "last_child (setTimeout tk d s) p a = last_child s p a"
  "previous_sibling (setTimeout tk d s) a b = previous_sibling s a b"
  by (simp_all add: first_child_def last_child_def previous_sibling_def)

lemma self_in_ids: "node_at s i = Some e \<Longrightarrow> i \<in> set (map eid (elements e))"
  using node_at_in[of s i e] elements_self[of e] by force

lemma insert_afterbegin:
  assumes wf: "well_formed s" and e: "node_at s el = Some e"
    and t: "node_at s target = Some tn" and out: "target \<notin> set (map eid (elements e))"
  shows "insertAdjacentElement AfterBegin target el s = Done (move_first target el s)"
    "well_formed (move_first target el s)" "node_at (move_first target el s) el = Some e"
    "first_child (move_first target el s) target el"
proof -
  show "insertAdjacentElement AfterBegin target el s = Done (move_first target el s)"
    using e out by (simp add: insertAdjacentElement_def list_ex_has_id)
  note m = move_first_props[OF wf e t out]
  show "well_formed (move_first target el s)" by (rule m(1))
  have ee: "e \<in> set (elements e)" "eid e = el" "is_elem e"
    using node_at_in[OF e] elements_self by auto
  show "node_at (move_first target el s) el = Some e" using m(3)[OF ee(1)] ee(2) by simp
  have "is_elem (prune el tn)" using node_at_in[OF t] by simp
  then have "kids (add_first e (prune el tn)) = e # kids (prune el tn)"
    by (cases "prune el tn") auto
  then show "first_child (move_first target el s) target el"
    using m(2) ee by (simp add: first_child_def has_id_eid)
qed

lemma insert_beforeend:
  assumes wf: "well_formed s" and e: "node_at s el = Some e"
    and t: "node_at s target = Some tn" and out: "target \<notin> set (map eid (elements e))"
  shows "insertAdjacentElement BeforeEnd target el s = Done (move_last target el s)"
    "well_formed (move_last target el s)" "node_at (move_last target el s) el = Some e"
    "last_child (move_last target el s) target el"
proof -
  show "insertAdjacentElement BeforeEnd target el s = Done (move_last target el s)"
    using e out by (simp add: insertAdjacentElement_def list_ex_has_id)
  note m = move_last_props[OF wf e t out]
  show "well_formed (move_last target el s)" by (rule m(1))
  have ee: "e \<in> set (elements e)" "eid e = el" "is_elem e"
    using node_at_in[OF e] elements_self by auto
  show "node_at (move_last target el s) el = Some e" using m(3)[OF ee(1)] ee(2) by simp
  have "is_elem (prune el tn)" using node_at_in[OF t] by simp
  then have "kids (add_last e (prune el tn)) = kids (prune el tn) @ [e]"
    by (cases "prune el tn") auto
  then show "last_child (move_last target el s) target el"
    using m(2) ee by (simp add: last_child_def has_id_eid)
qed

lemma adjacent_has: "adjacent a b ks \<Longrightarrow> \<exists>k\<in>set ks. has_id b k"
  by (induction a b ks rule: adjacent.induct) auto

lemma parent_outside:
  assumes d: "distinct (forest_ids F)" and e: "find_node el F = Some e"
    and p: "parent_of target F = Some p" and ne: "target \<noteq> el"
    and out: "eid p \<notin> set (map eid (elements e))"
  shows "target \<notin> set (map eid (elements e))"
proof
  assume "target \<in> set (map eid (elements e))"
  then obtain t where t: "t \<in> set (elements e)" "eid t = target" by auto
  have eF: "e \<in> set (all_elements F)" "eid e = el" using find_node_SomeD[OF e] by simp_all
  have "t \<noteq> e" using t(2) eF(2) ne by auto
  then obtain q where q: "q \<in> set (elements e)" "t \<in> set (kids q)"
    using element_is_root_or_kid(1)[OF t(1)] by blast
  have qF: "q \<in> set (all_elements F)" using all_elements_trans(1)[OF eF(1)] q(1) by blast
  have "has_id target t" using t elements_is_elem has_id_eid by blast
  then have "parent_of target F = Some q" using parent_of_unique[OF d qF q(2)] by simp
  then have "p = q" using p by simp
  then show False using out q(1) by force
qed

lemma insert_beforebegin:
  assumes wf: "well_formed s" and e: "node_at s el = Some e"
    and p: "parent_of target (roots s) = Some p" and out: "target \<notin> set (map eid (elements e))"
  shows "insertAdjacentElement BeforeBegin target el s = Done (move_before target el s)"
    "well_formed (move_before target el s)" "node_at (move_before target el s) el = Some e"
    "previous_sibling (move_before target el s) el target"
proof -
  have d: "distinct (forest_ids (roots s))" using wf by (simp add: well_formed_alt)
  have ee: "e \<in> set (elements e)" "eid e = el" "is_elem e" "e \<in> set (all_elements (roots s))"
    using node_at_in[OF e] elements_self by auto
  obtain k where pk: "p \<in> set (all_elements (roots s))" "k \<in> set (kids p)" "has_id target k"
    using parent_of_SomeD[OF p] by blast
  have ne: "target \<noteq> el" using out self_in_ids[OF e] by auto
  have pout: "eid p \<notin> set (map eid (elements e))"
  proof
    assume "eid p \<in> set (map eid (elements e))"
    then have "p \<in> set (elements e)" using in_subtree_by_id[OF d ee(4) pk(1)] by simp
    then have "set (forest_ids (kids p)) \<subseteq> set (forest_ids (kids e))" by (rule kids_inner)
    moreover have "target \<in> set (forest_ids (kids p))" using pk(2,3) by (rule kid_id)
    ultimately show False using out ids_cases[of e] by blast
  qed
  show "insertAdjacentElement BeforeBegin target el s = Done (move_before target el s)"
    using e p pout ne by (simp add: insertAdjacentElement_def list_ex_has_id)
  have rin: "target \<in> set (inner_ids (roots s))" using p parent_of_iff[of target "roots s"] by simp
  note m = move_before_props[OF wf e rin out]
  show wf': "well_formed (move_before target el s)" by (rule m(1))
  show "node_at (move_before target el s) el = Some e" using m(2)[OF ee(1)] ee(2) by simp
  have np: "node_at s (eid p) = Some p" using node_at_wf[OF wf pk(1)] .
  let ?P = "ins_before target e (prune el p)"
  have nP: "node_at (move_before target el s) (eid p) = Some ?P" using m(3)[OF np pout] .
  have "\<not> has_id el k" using pk(3) ne by (cases k) auto
  then have "prune el k \<in> set (detach el (kids p))" using pk(2) by (rule prune_kid[rotated])
  moreover have "has_id target (prune el k)" using pk(3) by simp
  moreover have "has_id el e" using ee(2,3) has_id_eid by simp
  ultimately have adj: "adjacent el target (kids ?P)"
    using ins_kids_adjacent[of el e "prune el k" "detach el (kids p)" target]
    by (simp add: kids_ins_before kids_prune)
  then obtain k' where k': "k' \<in> set (kids ?P)" "has_id target k'" using adjacent_has by blast
  have "?P \<in> set (all_elements (roots (move_before target el s)))" using node_at_in[OF nP] by simp
  moreover have "distinct (forest_ids (roots (move_before target el s)))"
    using wf' by (simp add: well_formed_alt)
  ultimately have "parent_of target (roots (move_before target el s)) = Some ?P"
    using parent_of_unique k' by blast
  then show "previous_sibling (move_before target el s) el target"
    using adj by (simp add: previous_sibling_def)
qed

subsection \<open>insertAndReveal\<close>

lemma insertAdjacent_keeps:
  assumes wf: "well_formed s" and e: "node_at s el = Some e"
    and t: "cmd \<noteq> BeforeBegin \<longrightarrow> node_at s target \<noteq> None"
  shows "case insertAdjacentElement cmd target el s of
           Raised x s' \<Rightarrow> x = HierarchyRequestError
         | Done s2 \<Rightarrow> well_formed s2 \<and> node_at s2 el = Some e"
proof (cases cmd)
  case AfterBegin
  show ?thesis
  proof (cases "target \<in> set (map eid (elements e))")
    case True
    then show ?thesis using e AfterBegin by (simp add: insertAdjacentElement_def list_ex_has_id)
  next
    case False
    obtain tn where "node_at s target = Some tn" using t AfterBegin by auto
    from insert_afterbegin[OF wf e this False] show ?thesis using AfterBegin by simp
  qed
next
  case BeforeEnd
  show ?thesis
  proof (cases "target \<in> set (map eid (elements e))")
    case True
    then show ?thesis using e BeforeEnd by (simp add: insertAdjacentElement_def list_ex_has_id)
  next
    case False
    obtain tn where "node_at s target = Some tn" using t BeforeEnd by auto
    from insert_beforeend[OF wf e this False] show ?thesis using BeforeEnd by simp
  qed
next
  case BeforeBegin
  show ?thesis
  proof (cases "parent_of target (roots s)")
    case None
    then show ?thesis using e wf BeforeBegin by (simp add: insertAdjacentElement_def)
  next
    case (Some p)
    show ?thesis
    proof (cases "eid p \<in> set (map eid (elements e)) \<or> target = el")
      case True
      then show ?thesis using e wf Some BeforeBegin
        by (auto simp: insertAdjacentElement_def list_ex_has_id)
    next
      case False
      have d: "distinct (forest_ids (roots s))" using wf by (simp add: well_formed_alt)
      have "target \<notin> set (map eid (elements e))"
        using parent_outside[OF d e[unfolded node_at_def] Some] False by blast
      from insert_beforebegin[OF wf e Some this] show ?thesis using BeforeBegin by simp
    qed
  qed
qed

lemma marked_node:
  assumes wf: "well_formed s" and e: "node_at s el = Some e" and f: "attr_only f"
  shows "well_formed (modify el f s)" "node_at (modify el f s) el = Some (f e)"
    "kids (f e) = kids e" "map eid (elements (f e)) = map eid (elements e)"
    "node_at (modify el f s) j = map_option (upd el f) (node_at s j)"
    "parent_of x (roots (modify el f s)) = map_option (upd el f) (parent_of x (roots s))"
proof -
  have ee: "is_elem e" "eid e = el" using node_at_in[OF e] by simp_all
  show "well_formed (modify el f s)" using wf_modify[OF f wf] .
  show "node_at (modify el f s) el = Some (f e)"
    using node_at_modify[OF f wf, of el el] e ee by (simp add: upd_at)
  show "kids (f e) = kids e" using attr_only_simps(1)[OF f] .
  show "map eid (elements (f e)) = map eid (elements e)"
    using attr_only_simps(2,6)[OF f, of e] ee ids_is_elem[of e] by (simp add: forest_ids_def)
  show "node_at (modify el f s) j = map_option (upd el f) (node_at s j)"
    using node_at_modify[OF f wf] .
  show "parent_of x (roots (modify el f s)) = map_option (upd el f) (parent_of x (roots s))"
    using parent_of_modify[OF f wf] .
qed

lemma insertAndReveal_childless:
  assumes wf: "well_formed s" and e: "node_at s el = Some e"
    and childless: "find is_elem (kids e) = None"
    and t: "cmd \<noteq> BeforeBegin \<longrightarrow> node_at s target \<noteq> None"
  shows "\<exists>x s'. insertAndReveal env el target cmd delay s = Raised x s' \<and> x \<noteq> OutsideModel"
proof -
  let ?f = "classList_add ''merge-add-wrapper''"
  let ?s1 = "modify el ?f s"
  note m = marked_node[OF wf e attr_only_classList_add[of "''merge-add-wrapper''"]]
  have t1: "cmd \<noteq> BeforeBegin \<longrightarrow> node_at ?s1 target \<noteq> None"
    using t m(5)[of target] by simp
  note k = insertAdjacent_keeps[OF m(1) m(2) t1]
  show ?thesis
  proof (cases "insertAdjacentElement cmd target el ?s1")
    case (Done s2)
    then have "node_at s2 el = Some (?f e)" using k by simp
    then show ?thesis using Done childless m(3) by (simp add: insertAndReveal_def)
  next
    case (Raised x s')
    then have "x = HierarchyRequestError" using k by simp
    then show ?thesis using Raised by (simp add: insertAndReveal_def)
  qed
qed

lemma observe_style:
  assumes "well_formed s"
  shows "first_child (style_height env i v s) p a = first_child s p a"
    "last_child (style_height env i v s) p a = last_child s p a"
    "previous_sibling (style_height env i v s) a b = previous_sibling s a b"
  unfolding style_height_def
  using observe_modify[OF attr_only_style assms] by simp_all

lemma insertAndReveal_Done:
  assumes "insertAdjacentElement cmd target el (modify el (classList_add ''merge-add-wrapper'') s) = Done s2"
    and "node_at s2 el = Some e'" and "find is_elem (kids e') = Some c"
  shows "insertAndReveal env el target cmd delay s =
     Done (setTimeout (RevealSlide el (fadeDuration env el) (slideDuration env el))
             (Some (if delay = 0 then 10 else delay))
             (style_height env el (px (clientHeight env (eid c))) s2))"
  using assms by (simp add: insertAndReveal_def)

lemma insertAndReveal_placed:
  assumes wf: "well_formed s" and e: "node_at s el = Some e"
    and child: "find is_elem (kids e) = Some c" and out: "target \<notin> set (map eid (elements e))"
  shows "node_at s target \<noteq> None \<Longrightarrow>
           \<exists>s'. insertAndReveal env el target AfterBegin delay s = Done s' \<and> first_child s' target el"
    "node_at s target \<noteq> None \<Longrightarrow>
           \<exists>s'. insertAndReveal env el target BeforeEnd delay s = Done s' \<and> last_child s' target el"
    "parent_of target (roots s) \<noteq> None \<Longrightarrow>
           \<exists>s'. insertAndReveal env el target BeforeBegin delay s = Done s' \<and> previous_sibling s' el target"
proof -
  let ?f = "classList_add ''merge-add-wrapper''"
  let ?s1 = "modify el ?f s"
  note m = marked_node[OF wf e attr_only_classList_add[of "''merge-add-wrapper''"]]
  have out1: "target \<notin> set (map eid (elements (?f e)))" using out m(4) by simp
  have c1: "find is_elem (kids (?f e)) = Some c" using child m(3) by simp
  {
    assume "node_at s target \<noteq> None"
    then obtain tn where tn: "node_at ?s1 target = Some tn" using m(5)[of target] by auto
    note a = insert_afterbegin[OF m(1) m(2) tn out1]
    have "insertAndReveal env el target AfterBegin delay s =
       Done (setTimeout (RevealSlide el (fadeDuration env el) (slideDuration env el))
             (Some (if delay = 0 then 10 else delay))
             (style_height env el (px (clientHeight env (eid c))) (move_first target el ?s1)))"
      using insertAndReveal_Done[OF a(1) a(3) c1] .
    moreover have "first_child (setTimeout (RevealSlide el (fadeDuration env el) (slideDuration env el))
             (Some (if delay = 0 then 10 else delay))
             (style_height env el (px (clientHeight env (eid c))) (move_first target el ?s1))) target el"
      using a(4) observe_style(1)[OF a(2)] by simp
    ultimately show "\<exists>s'. insertAndReveal env el target AfterBegin delay s = Done s' \<and> first_child s' target el"
      by blast
  }
  {
    assume "node_at s target \<noteq> None"
    then obtain tn where tn: "node_at ?s1 target = Some tn" using m(5)[of target] by auto
    note a = insert_beforeend[OF m(1) m(2) tn out1]
    have "insertAndReveal env el target BeforeEnd delay s =
       Done (setTimeout (RevealSlide el (fadeDuration env el) (slideDuration env el))
             (Some (if delay = 0 then 10 else delay))
             (style_height env el (px (clientHeight env (eid c))) (move_last target el ?s1)))"
      using insertAndReveal_Done[OF a(1) a(3) c1] .
    moreover have "last_child (setTimeout (RevealSlide el (fadeDuration env el) (slideDuration env el))
             (Some (if delay = 0 then 10 else delay))
             (style_height env el (px (clientHeight env (eid c))) (move_last target el ?s1))) target el"
      using a(4) observe_style(2)[OF a(2)] by simp
    ultimately show "\<exists>s'. insertAndReveal env el target BeforeEnd delay s = Done s' \<and> last_child s' target el"
      by blast
  }
  {
    assume "parent_of target (roots s) \<noteq> None"
    then obtain p where p: "parent_of target (roots ?s1) = Some p" using m(6)[of target] by auto
    note a = insert_beforebegin[OF m(1) m(2) p out1]
    have "insertAndReveal env el target BeforeBegin delay s =
       Done (setTimeout (RevealSlide el (fadeDuration env el) (slideDuration env el))
             (Some (if delay = 0 then 10 else delay))
             (style_height env el (px (clientHeight env (eid c))) (move_before target el ?s1)))"
      using insertAndReveal_Done[OF a(1) a(3) c1] .
    moreover have "previous_sibling (setTimeout (RevealSlide el (fadeDuration env el) (slideDuration env el))
             (Some (if delay = 0 then 10 else delay))
             (style_height env el (px (clientHeight env (eid c))) (move_before target el ?s1))) el target"
      using a(4) observe_style(3)[OF a(2)] by simp
    ultimately show "\<exists>s'. insertAndReveal env el target BeforeBegin delay s = Done s' \<and> previous_sibling s' el target"
      by blast
  }
qed

subsection \<open>Frames of the tree operations\<close>

lemma inner_iff:
  assumes "distinct (forest_ids F)"
  shows "(j \<in> set (inner_ids F)) = (j \<in> set (forest_ids F) \<and> j \<notin> set (root_ids F))"
proof -
  have eq: "mset (forest_ids F) = mset (root_ids F) + mset (inner_ids F)"
    using roots_inner_mset[of F] by (simp add: root_ids_def)
  then have "distinct (root_ids F @ inner_ids F)" using distinct_mset_split assms by blast
  moreover have "set (forest_ids F) = set (root_ids F) \<union> set (inner_ids F)"
    using arg_cong[OF eq, of set_mset] by simp
  ultimately show ?thesis by auto
qed

lemma root_ids_Cons:
  "root_ids [] = []"
  "root_ids (Elem j t a ks # F) = j # root_ids F"
  "root_ids (Text x # F) = root_ids F"
  by (simp_all add: root_ids_def)

lemma root_ids_detach: "root_ids (detach i F) = filter (\<lambda>j. j \<noteq> i) (root_ids F)"
proof (induction F)
  case (Cons k F)
  then show ?case by (cases k) (simp_all add: root_ids_Cons)
qed (simp add: root_ids_Cons)

lemma root_ids_map:
  assumes "\<And>m. eid (f m) = eid m" "\<And>m. is_elem (f m) = is_elem m"
  shows "root_ids (map f F) = root_ids F"
  by (induction F) (simp_all add: root_ids_def assms)

lemma is_elem_upd_kid:
  assumes g: "\<And>j t a ks. g (Elem j t a ks) = Elem j t a (h ks)"
  shows "is_elem (upd p g m) = is_elem m"
  by (cases m) (simp_all add: g)

lemma move_last_frame:
  assumes wf: "well_formed s" and e: "node_at s i = Some e"
    and p: "node_at s p = Some pn" and out: "p \<notin> set (map eid (elements e))"
  shows "top_at (move_last p i s) j = top_at s j"
    "j \<in> set (inner_ids (roots s)) \<Longrightarrow> j \<in> set (inner_ids (roots (move_last p i s)))"
    "i \<in> set (inner_ids (roots (move_last p i s)))"
proof -
  have d: "distinct (forest_ids (roots s))" using wf by (simp add: well_formed_alt)
  have r: "roots (move_last p i s) = map (upd p (add_last e)) (detach i (roots s))"
    using e by (simp add: move_last_def place_last_def)
  note m = move_place[where g = "add_last e" and h = "\<lambda>ks. ks @ [e]", OF _ _ _ d e[unfolded node_at_def]
      p[unfolded node_at_def] out, simplified]
  note mp = move_last_props[OF wf e p out]
  have ids: "set (forest_ids (roots (move_last p i s))) = set (forest_ids (roots s))"
    using m(2) by (simp add: r)
  have eF: "e \<in> set (all_elements (roots s))" using node_at_in[OF e] by simp
  show "top_at (move_last p i s) j = top_at s j"
  proof (cases "node_at s j")
    case None
    then have "j \<notin> set (forest_ids (roots s))" using node_at_ids[of s j] by simp
    then have "node_at (move_last p i s) j = None" using ids node_at_ids[of "move_last p i s" j] by simp
    then show ?thesis using None by (simp add: top_at_def)
  next
    case (Some m)
    show ?thesis
    proof (cases "j \<in> set (map eid (elements e))")
      case True
      have "m \<in> set (all_elements (roots s))" "eid m = j" using node_at_in[OF Some] by simp_all
      then have "m \<in> set (elements e)" using in_subtree_by_id[OF d eF] True by simp
      then have "node_at (move_last p i s) (eid m) = Some m" by (rule mp(3))
      then show ?thesis using Some \<open>eid m = j\<close> by (simp add: top_at_def)
    next
      case False
      have a: "add_last e (Elem j' t a ks) = Elem j' t a (ks @ [e])" for j' t a ks by simp
      show ?thesis using mp(4)[OF Some False] Some
        by (simp add: top_at_def eid_upd_kid(2,3)[of "add_last e", OF a])
    qed
  qed
  have rt: "set (root_ids (roots (move_last p i s))) \<subseteq> set (root_ids (roots s)) - {i}"
  proof -
    have a: "add_last e (Elem j' t a ks) = Elem j' t a (ks @ [e])" for j' t a ks by simp
    have "root_ids (map (upd p (add_last e)) (detach i (roots s))) = root_ids (detach i (roots s))"
      by (rule root_ids_map) (simp_all add: eid_upd_kid(1)[of "add_last e", OF a] is_elem_upd_kid[of "add_last e", OF a])
    then show ?thesis by (auto simp add: r root_ids_detach)
  qed
  have d': "distinct (forest_ids (roots (move_last p i s)))" using mp(1) by (simp add: well_formed_alt)
  show "j \<in> set (inner_ids (roots (move_last p i s)))" if "j \<in> set (inner_ids (roots s))"
    using that rt ids inner_iff[OF d, of j] inner_iff[OF d', of j] by auto
  have "i \<in> set (forest_ids (roots s))" using e node_at_ids[of s i] by simp
  then show "i \<in> set (inner_ids (roots (move_last p i s)))"
    using rt ids inner_iff[OF d', of i] by auto
qed

lemma move_before_frame:
  assumes wf: "well_formed s" and e: "node_at s i = Some e"
    and r: "r \<in> set (inner_ids (roots s))" and out: "r \<notin> set (map eid (elements e))"
  shows "top_at (move_before r i s) j = top_at s j"
    "j \<in> set (inner_ids (roots s)) \<Longrightarrow> j \<in> set (inner_ids (roots (move_before r i s)))"
    "i \<in> set (inner_ids (roots (move_before r i s)))"
proof -
  have d: "distinct (forest_ids (roots s))" using wf by (simp add: well_formed_alt)
  have rt: "roots (move_before r i s) = place_before r e (detach i (roots s))"
    using e by (simp add: move_before_def)
  note mp = move_before_props[OF wf e r out]
  have d': "distinct (forest_ids (roots (move_before r i s)))" using mp(1) by (simp add: well_formed_alt)
  have eF: "e \<in> set (all_elements (roots s))" using node_at_in[OF e] by simp
  have sub: "set (forest_ids (roots s)) \<subseteq> set (forest_ids (roots (move_before r i s)))"
  proof
    fix x assume "x \<in> set (forest_ids (roots s))"
    then obtain m where m: "node_at s x = Some m" using node_at_ids[of s x] by auto
    show "x \<in> set (forest_ids (roots (move_before r i s)))"
    proof (cases "x \<in> set (map eid (elements e))")
      case True
      have "m \<in> set (all_elements (roots s))" "eid m = x" using node_at_in[OF m] by simp_all
      then have "m \<in> set (elements e)" using in_subtree_by_id[OF d eF] True by simp
      then have "node_at (move_before r i s) (eid m) = Some m" by (rule mp(2))
      then show ?thesis using \<open>eid m = x\<close> node_at_ids[of "move_before r i s" x] by auto
    next
      case False
      then show ?thesis using mp(3)[OF m False] node_at_ids[of "move_before r i s" x] by auto
    qed
  qed
  note sp = detach_split[OF d e[unfolded node_at_def]]
  have rin: "r \<in> set (inner_ids (detach i (roots s)))"
    using inner_survives[OF d e[unfolded node_at_def] r out] .
  have eq: "mset (forest_ids (place_before r e (detach i (roots s)))) =
      mset (forest_ids (detach i (roots s))) + mset (map eid (elements e))"
    using place_before_mset[OF sp(1), of r e] rin by simp
  have "set (forest_ids (place_before r e (detach i (roots s)))) =
      set (forest_ids (detach i (roots s))) \<union> set (map eid (elements e))"
    using arg_cong[OF eq, of set_mset] by simp
  then have ids: "set (forest_ids (roots (move_before r i s))) = set (forest_ids (roots s))"
    using sp(4) by (simp add: rt)
  show "top_at (move_before r i s) j = top_at s j"
  proof (cases "node_at s j")
    case None
    then have "j \<notin> set (forest_ids (roots s))" using node_at_ids[of s j] by simp
    then have "node_at (move_before r i s) j = None"
      using ids node_at_ids[of "move_before r i s" j] by simp
    then show ?thesis using None by (simp add: top_at_def)
  next
    case (Some m)
    show ?thesis
    proof (cases "j \<in> set (map eid (elements e))")
      case True
      have "m \<in> set (all_elements (roots s))" "eid m = j" using node_at_in[OF Some] by simp_all
      then have "m \<in> set (elements e)" using in_subtree_by_id[OF d eF] True by simp
      then have "node_at (move_before r i s) (eid m) = Some m" by (rule mp(2))
      then show ?thesis using Some \<open>eid m = j\<close> by (simp add: top_at_def)
    next
      case False
      show ?thesis using mp(3)[OF Some False] Some by (simp add: top_at_def)
    qed
  qed
  have rts: "set (root_ids (roots (move_before r i s))) \<subseteq> set (root_ids (roots s)) - {i}"
  proof -
    have "root_ids (map (ins_before r e) (detach i (roots s))) = root_ids (detach i (roots s))"
      by (rule root_ids_map) simp_all
    then show ?thesis by (auto simp add: rt place_before_def root_ids_detach)
  qed
  show "j \<in> set (inner_ids (roots (move_before r i s)))" if "j \<in> set (inner_ids (roots s))"
    using that rts ids inner_iff[OF d, of j] inner_iff[OF d', of j] by auto
  have "i \<in> set (forest_ids (roots s))" using e node_at_ids[of s i] by simp
  then show "i \<in> set (inner_ids (roots (move_before r i s)))"
    using rts ids inner_iff[OF d', of i] by auto
qed

lemma modify_frame:
  assumes f: "attr_only f" and wf: "well_formed s"
  shows "top_at (modify i f s) j =
      (if j = i then map_option (\<lambda>n. (tag n, attrs (f n))) (node_at s j) else top_at s j)"
    "inner_ids (roots (modify i f s)) = inner_ids (roots s)"
proof -
  show "top_at (modify i f s) j =
      (if j = i then map_option (\<lambda>n. (tag n, attrs (f n))) (node_at s j) else top_at s j)"
  proof (cases "node_at s j")
    case None
    then show ?thesis by (auto simp add: top_at_def node_at_modify[OF f wf])
  next
    case (Some m)
    have em: "is_elem m" "eid m = j" using node_at_in[OF Some] by simp_all
    show ?thesis
    proof (cases "j = i")
      case True
      then show ?thesis using Some em attr_only_simps(3)[OF f, where n = m]
        by (simp add: top_at_def node_at_modify[OF f wf] upd_at)
    next
      case False
      then show ?thesis using Some em upd_attr_top(2,5)[OF f, where m = m and i = i]
        by (simp add: top_at_def node_at_modify[OF f wf])
    qed
  qed
  show "inner_ids (roots (modify i f s)) = inner_ids (roots s)"
    by (simp add: modify_def inner_ids_upd_attr[OF f])
qed

lemma createElement_frame:
  assumes wf: "well_formed s"
  shows "top_at (createElement t s) j = (if j = fresh s then Some (t, []) else top_at s j)"
    "inner_ids (roots (createElement t s)) = inner_ids (roots s)"
proof -
  show "top_at (createElement t s) j = (if j = fresh s then Some (t, []) else top_at s j)"
    unfolding top_at_def node_at_createElement[OF wf] by simp
  show "inner_ids (roots (createElement t s)) = inner_ids (roots s)"
    by (simp add: createElement_def inner_ids_append inner_ids_simps)
qed

subsection \<open>Class tokens\<close>

lemma split_ws_tokens:
  "\<forall>c\<in>set acc. \<not> is_ws c \<Longrightarrow> t \<in> set (split_ws acc cs) \<Longrightarrow> t \<noteq> [] \<and> (\<forall>c\<in>set t. \<not> is_ws c)"
proof (induction acc cs rule: split_ws.induct)
  case (1 acc)
  then show ?case by (cases "acc = []") simp_all
next
  case (2 acc c cs)
  show ?case
  proof (cases "is_ws c")
    case True
    show ?thesis
    proof (cases "acc = []")
      case e: True
      then show ?thesis using 2(1)[OF True e] 2(5) True by simp
    next
      case e: False
      have "t = acc \<or> t \<in> set (split_ws [] cs)" using 2(5) True e by simp
      then show ?thesis using 2(2)[OF True e] 2(4) e by auto
    qed
  next
    case False
    have "\<forall>c\<in>set (acc @ [c]). \<not> is_ws c" using 2(4) False by simp
    moreover have "t \<in> set (split_ws (acc @ [c]) cs)" using 2(5) False by simp
    ultimately show ?thesis using 2(3)[OF False] by blast
  qed
qed

lemma ordered_set_set:
  "set (ordered_set seen ts) = set ts - set seen" "distinct (ordered_set seen ts)"
  by (induction seen ts rule: ordered_set.induct) auto

lemma ordered_set_id:
  "distinct ts \<Longrightarrow> set ts \<inter> set seen = {} \<Longrightarrow> ordered_set seen ts = ts"
  by (induction seen ts rule: ordered_set.induct) auto

lemma split_ws_app:
  "\<forall>c\<in>set t. \<not> is_ws c \<Longrightarrow> split_ws acc (t @ rest) = split_ws (acc @ t) rest"
  by (induction t arbitrary: acc) simp_all

lemma split_join:
  "\<forall>t\<in>set ts. t \<noteq> [] \<and> (\<forall>c\<in>set t. \<not> is_ws c) \<Longrightarrow> split_ws [] (join_ws ts) = ts"
proof (induction ts rule: join_ws.induct)
  case 1
  then show ?case by simp
next
  case (2 t)
  then show ?case using split_ws_app[of t "[]" "[]"] by simp
next
  case (3 t u ts)
  have "split_ws [] (t @ CHR 0x20 # join_ws (u # ts)) = split_ws ([] @ t) (CHR 0x20 # join_ws (u # ts))"
    using 3(2) by (intro split_ws_app) simp
  also have "\<dots> = t # split_ws [] (join_ws (u # ts))" using 3(2) by (simp add: is_ws_def)
  also have "\<dots> = t # u # ts" using 3 by simp
  finally show ?case by simp
qed

lemma classList_tokens:
  "t \<in> set (classList n) \<Longrightarrow> t \<noteq> [] \<and> (\<forall>c\<in>set t. \<not> is_ws c)" "distinct (classList n)"
proof -
  show "distinct (classList n)" by (simp add: classList_def ordered_set_set)
  assume "t \<in> set (classList n)"
  then have "t \<in> set (split_ws [] (case getAttribute n ''class'' of None \<Rightarrow> [] | Some v \<Rightarrow> v))"
    by (simp add: classList_def ordered_set_set)
  then show "t \<noteq> [] \<and> (\<forall>c\<in>set t. \<not> is_ws c)" by (intro split_ws_tokens[of "[]"]) simp_all
qed

lemma classList_class_update:
  assumes "is_elem n" "ts \<noteq> []" "distinct ts" "\<forall>t\<in>set ts. t \<noteq> [] \<and> (\<forall>c\<in>set t. \<not> is_ws c)"
  shows "classList (class_update ts n) = ts"
proof -
  have "classList (class_update ts n) = ordered_set [] (split_ws [] (join_ws ts))"
    using assms(1,2) by (simp add: class_update_def classList_def getAttribute_set_attr)
  then show ?thesis using assms(3,4) by (simp add: split_join ordered_set_id)
qed

lemma classList_add_tokens:
  assumes "is_elem n" "tok \<noteq> []" "\<forall>c\<in>set tok. \<not> is_ws c"
  shows "set (classList (classList_add tok n)) = insert tok (set (classList n))"
proof (cases "tok \<in> set (classList n)")
  case True
  then have ne: "classList n \<noteq> []" by auto
  have "classList (classList_add tok n) = classList n"
    unfolding classList_add_def using True
    by (simp add: classList_class_update[OF assms(1) ne classList_tokens(2)] classList_tokens(1))
  then show ?thesis using True by auto
next
  case False
  have "classList (class_update (classList n @ [tok]) n) = classList n @ [tok]"
    by (rule classList_class_update[OF assms(1)])
      (use False assms(2,3) classList_tokens in auto)
  then show ?thesis using False by (simp add: classList_add_def)
qed

lemma classList_add_other:
  assumes "is_elem n" "k \<noteq> ''class''"
  shows "getAttribute (classList_add tok n) k = getAttribute n k"
  using assms by (simp add: classList_add_def class_update_def getAttribute_set_attr)

lemma remove_item_token:
  "''merge-remove-item'' \<noteq> [] \<and> (\<forall>c\<in>set ''merge-remove-item''. \<not> is_ws c)"
  by (simp add: is_ws_def)

subsection \<open>Attributes of a referenced element\<close>

lemma attr_at_top:
  "attr_at s j k = (case top_at s j of None \<Rightarrow> None | Some ta \<Rightarrow> map_of (snd ta) k)"
  by (simp add: attr_at_def top_at_def getAttribute_def split: option.splits)

lemma removing_attr:
  "removing s j = (''merge-remove-item'' \<in>
      set (ordered_set [] (split_ws [] (case attr_at s j ''class'' of None \<Rightarrow> [] | Some v \<Rightarrow> v))))"
  by (simp add: removing_def attr_at_def classList_def split: option.splits)

lemma mergeListItem_attr: "mergeListItem s j = attr_at s j ''data-merge-list-item''"
  by (simp add: mergeListItem_def attr_at_def)

lemma attr_at_modify:
  assumes "attr_only f" "well_formed s"
  shows "attr_at (modify i f s) j k =
     (if j = i then (case node_at s i of None \<Rightarrow> None | Some n \<Rightarrow> getAttribute (f n) k)
      else attr_at s j k)"
proof (cases "node_at s j")
  case None
  then show ?thesis by (auto simp: attr_at_def node_at_modify[OF assms])
next
  case (Some m)
  have em: "is_elem m" "eid m = j" using node_at_in[OF Some] by simp_all
  show ?thesis
  proof (cases "j = i")
    case True
    have "upd i f m = f m" using em True by (intro upd_at) simp_all
    moreover have "node_at s i = Some m" using Some True by simp
    ultimately show ?thesis unfolding True attr_at_def node_at_modify[OF assms] by simp
  next
    case False
    then show ?thesis using Some em upd_attr_top(5)[OF assms(1), where m = m and i = i]
      by (simp add: attr_at_def node_at_modify[OF assms] getAttribute_def)
  qed
qed

lemma attr_at_setAttribute:
  assumes "well_formed s"
  shows "attr_at (setAttribute i k v s) j k' =
     (if j = i \<and> k' = k \<and> node_at s i \<noteq> None then Some v else attr_at s j k')"
proof -
  have a: "attr_only (set_attr k v)" by simp
  show ?thesis unfolding setAttribute_def attr_at_modify[OF a assms]
    by (auto simp: attr_at_def getAttribute_set_attr dest: node_at_in split: option.splits)
qed

lemma attr_at_createElement:
  assumes "well_formed s"
  shows "attr_at (createElement t s) j k = (if j = fresh s then None else attr_at s j k)"
  by (simp add: attr_at_top createElement_frame(1)[OF assms])

lemma fold_modify:
  assumes "\<And>i. attr_only (f i)" "well_formed s"
  shows "well_formed (fold (\<lambda>i. modify i (f i)) ids s)"
    "node_at (fold (\<lambda>i. modify i (f i)) ids s) j = map_option (fold (\<lambda>i. upd i (f i)) ids) (node_at s j)"
    "inner_ids (roots (fold (\<lambda>i. modify i (f i)) ids s)) = inner_ids (roots s)"
    "fresh (fold (\<lambda>i. modify i (f i)) ids s) = fresh s"
  using assms(2)
proof (induction ids arbitrary: s)
  case Nil
  {
    case 1 then show ?case by simp
  next
    case 2 then show ?case by (simp add: option.map_ident)
  next
    case 3 then show ?case by simp
  next
    case 4 then show ?case by simp
  }
next
  case (Cons i ids)
  {
    case 1
    then show ?case using Cons(1)[OF wf_modify[OF assms(1), of s i]] by simp
  next
    case 2
    then show ?case using Cons(2)[OF wf_modify[OF assms(1), of s i]]
      by (simp add: node_at_modify[OF assms(1)] option.map_comp comp_def)
  next
    case 3
    then show ?case using Cons(3)[OF wf_modify[OF assms(1), of s i]]
      by (simp add: modify_frame(2)[OF assms(1)])
  next
    case 4
    then show ?case using Cons(4)[OF wf_modify[OF assms(1), of s i]] by simp
  }
qed

subsection \<open>Disabling the inputs of a subtree\<close>

lemma subtree_distinct:
  assumes "distinct (forest_ids F)" "n \<in> set (all_elements F)"
  shows "distinct (map eid (elements n))"
proof -
  have "\<exists>t. find_node (eid n) F = Some t" using in_forest_found[OF assms(2)] .
  then obtain t where t: "find_node (eid n) F = Some t" by blast
  have "t = n" using find_node_distinct[OF _ assms(2)] assms(1) t by (simp add: distinct_ids_def forest_ids_def)
  then have f: "find_node (eid n) F = Some n" using t by simp
  show ?thesis by (rule detach_split(2)[OF assms(1) f])
qed

lemma fold_upd_top:
  assumes "\<And>i. attr_only (f i)"
  shows "eid (fold (\<lambda>i. upd i (f i)) ids m) = eid m" "tag (fold (\<lambda>i. upd i (f i)) ids m) = tag m"
    "is_elem (fold (\<lambda>i. upd i (f i)) ids m) = is_elem m"
  by (induction ids arbitrary: m; simp add: upd_attr_top(1,2,3)[OF assms])+

lemma fold_upd_elements:
  assumes "\<And>i. attr_only (f i)" "distinct (map eid (elements n))"
  shows "elements (fold (\<lambda>i. upd i (f i)) ids n) = map (fold (\<lambda>i. upd i (f i)) ids) (elements n)"
  using assms(2)
proof (induction ids arbitrary: n)
  case Nil
  then show ?case by simp
next
  case (Cons i ids)
  have d: "distinct (map eid (elements (upd i (f i) n)))"
    using Cons(2) by (simp only: ids_upd_attr(1)[OF assms(1)])
  show ?case using Cons(1)[OF d] by (simp add: elements_upd_attr(1)[OF assms(1) Cons(2)] comp_def)
qed

lemma descendants_tl: "is_elem n \<Longrightarrow> descendants n = tl (elements n)"
  by (cases n) (simp_all add: descendants_def)

lemma fold_upd_descendants:
  assumes "\<And>i. attr_only (f i)" "distinct (map eid (elements n))" "is_elem n"
  shows "descendants (fold (\<lambda>i. upd i (f i)) ids n) = map (fold (\<lambda>i. upd i (f i)) ids) (descendants n)"
  using assms(3) fold_upd_elements[OF assms(1,2), where ids = ids]
  by (simp add: descendants_tl fold_upd_top(3)[OF assms(1)] map_tl)

lemma fold_upd_keeps:
  assumes "is_elem m" "getAttribute m k = Some v"
  shows "getAttribute (fold (\<lambda>i. upd i (set_attr k v)) ids m) k = Some v"
  using assms
proof (induction ids arbitrary: m)
  case Nil
  then show ?case by simp
next
  case (Cons i ids)
  have a: "attr_only (set_attr k v)" by simp
  have 1: "is_elem (upd i (set_attr k v) m)" using Cons(2) by (simp add: upd_attr_top(3)[OF a])
  have 2: "getAttribute (upd i (set_attr k v) m) k = Some v"
  proof (cases "eid m = i")
    case True
    then show ?thesis using Cons(2) by (simp add: upd_at getAttribute_set_attr)
  next
    case False
    then show ?thesis using Cons(3) upd_attr_top(5)[OF a False] by (simp add: getAttribute_def)
  qed
  show ?case using Cons(1)[OF 1 2] by simp
qed

lemma fold_upd_sets:
  assumes "is_elem m" "eid m \<in> set ids"
  shows "getAttribute (fold (\<lambda>i. upd i (set_attr k v)) ids m) k = Some v"
  using assms
proof (induction ids arbitrary: m)
  case Nil
  then show ?case by simp
next
  case (Cons i ids)
  have a: "attr_only (set_attr k v)" by simp
  have 1: "is_elem (upd i (set_attr k v) m)" using Cons(2) by (simp add: upd_attr_top(3)[OF a])
  show ?case
  proof (cases "eid m = i")
    case True
    have "getAttribute (upd i (set_attr k v) m) k = Some v"
      using True Cons(2) by (simp add: upd_at getAttribute_set_attr)
    then show ?thesis using fold_upd_keeps[OF 1] by simp
  next
    case False
    then have "eid (upd i (set_attr k v) m) \<in> set ids" using Cons(3) by (simp add: upd_attr_top(1)[OF a])
    then show ?thesis using Cons(1)[OF 1] by simp
  qed
qed

lemma fold_setAttribute_attr_at:
  assumes "well_formed s" "k' \<noteq> k"
  shows "attr_at (fold (\<lambda>i. setAttribute i k v) ids s) j k' = attr_at s j k'"
  using assms(1)
proof (induction ids arbitrary: s)
  case Nil
  then show ?case by simp
next
  case (Cons i ids)
  have "well_formed (setAttribute i k v s)" unfolding setAttribute_def by (rule wf_modify) (simp, rule Cons(2))
  then show ?case using Cons(1) assms(2) by (simp add: attr_at_setAttribute[OF Cons(2)])
qed

lemma disable_inputs_props:
  assumes wf: "well_formed s" and e: "node_at s el = Some e"
  shows "well_formed (disable_inputs el s)" "fresh (disable_inputs el s) = fresh s"
    "inner_ids (roots (disable_inputs el s)) = inner_ids (roots s)"
    "\<exists>e1. node_at (disable_inputs el s) el = Some e1 \<and> map eid (elements e1) = map eid (elements e) \<and>
       is_elem e1 \<and>
       (\<forall>m\<in>set (descendants e1). is_input m \<longrightarrow> getAttribute m ''disabled'' = Some [])"
    "k \<noteq> ''disabled'' \<Longrightarrow> attr_at (disable_inputs el s) j k = attr_at s j k"
proof -
  let ?ids = "map eid (filter is_input (descendants e))"
  let ?D = "fold (\<lambda>i. upd i (set_attr ''disabled'' [])) ?ids"
  have a: "\<And>i::nat. attr_only (set_attr ''disabled'' [])" by simp
  have eq: "disable_inputs el s = fold (\<lambda>i. modify i (set_attr ''disabled'' [])) ?ids s"
    using e by (simp add: disable_inputs_def querySelectorAll_def setAttribute_def[abs_def])
  have eq2: "disable_inputs el s = fold (\<lambda>i. setAttribute i ''disabled'' []) ?ids s"
    using e by (simp add: disable_inputs_def querySelectorAll_def)
  note fm = fold_modify[where f = "\<lambda>i. set_attr ''disabled'' []", OF a wf, of ?ids]
  show "well_formed (disable_inputs el s)" unfolding eq by (rule fm(1))
  show "fresh (disable_inputs el s) = fresh s" by simp
  show "inner_ids (roots (disable_inputs el s)) = inner_ids (roots s)" unfolding eq by (rule fm(3))
  show "attr_at (disable_inputs el s) j k = attr_at s j k" if "k \<noteq> ''disabled''"
    unfolding eq2 by (rule fold_setAttribute_attr_at[OF wf that])
  have ee: "e \<in> set (all_elements (roots s))" "is_elem e" using node_at_in[OF e] by simp_all
  have d: "distinct (map eid (elements e))"
    using subtree_distinct[OF _ ee(1)] wf by (simp add: well_formed_alt)
  have n1: "node_at (disable_inputs el s) el = Some (?D e)" unfolding eq fm(2) using e by simp
  have i1: "map eid (elements (?D e)) = map eid (elements e)"
    unfolding fold_upd_elements[where f = "\<lambda>i. set_attr ''disabled'' []", OF a d]
    by (simp add: fold_upd_top(1)[where f = "\<lambda>i. set_attr ''disabled'' []", OF a] comp_def)
  have ds: "descendants (?D e) = map ?D (descendants e)"
    by (rule fold_upd_descendants[where f = "\<lambda>i. set_attr ''disabled'' []", OF a d ee(2)])
  have dis: "getAttribute m ''disabled'' = Some []" if m: "m \<in> set (descendants (?D e))" "is_input m" for m
  proof -
    obtain m0 where m0: "m0 \<in> set (descendants e)" "m = ?D m0" using m(1) unfolding ds by auto
    have "is_input m0" using m(2) m0(2)
      by (simp add: is_input_def fold_upd_top(2)[where f = "\<lambda>i. set_attr ''disabled'' []", OF a])
    then have "eid m0 \<in> set ?ids" using m0(1) by simp
    moreover have "is_elem m0" using m0(1) descendants_subset elements_is_elem by blast
    ultimately show ?thesis unfolding m0(2) by (intro fold_upd_sets)
  qed
  have "is_elem (?D e)" using ee(2) by (simp add: fold_upd_top(3)[where f = "\<lambda>i. set_attr ''disabled'' []", OF a])
  then show "\<exists>e1. node_at (disable_inputs el s) el = Some e1 \<and> map eid (elements e1) = map eid (elements e) \<and>
       is_elem e1 \<and>
       (\<forall>m\<in>set (descendants e1). is_input m \<longrightarrow> getAttribute m ''disabled'' = Some [])"
    using n1 i1 dis by blast
qed

lemma attr_at_style:
  assumes "well_formed s" "k \<noteq> ''style''"
  shows "attr_at (style_height env i v s) j k = attr_at s j k"
proof -
  have a: "attr_only (\<lambda>n. set_attr ''style'' (styleHeight env (getAttribute n ''style'') v) n)" by simp
  show ?thesis unfolding style_height_def attr_at_modify[OF a assms(1)] using assms(2)
    by (auto simp: attr_at_def getAttribute_set_attr dest: node_at_in split: option.splits)
qed

lemma attr_at_classList_add:
  assumes "well_formed s" "k \<noteq> ''class'' \<or> j \<noteq> i"
  shows "attr_at (modify i (classList_add tok) s) j k = attr_at s j k"
proof -
  have a: "attr_only (classList_add tok)" by simp
  show ?thesis unfolding attr_at_modify[OF a assms(1)] using assms(2)
    by (auto simp: attr_at_def classList_add_other dest: node_at_in split: option.splits)
qed

lemma attr_at_moves:
  assumes wf: "well_formed s" and e: "node_at s i = Some e"
  shows "node_at s p = Some pn \<Longrightarrow> p \<notin> set (map eid (elements e)) \<Longrightarrow> attr_at (move_last p i s) j k = attr_at s j k"
    "r \<in> set (inner_ids (roots s)) \<Longrightarrow> r \<notin> set (map eid (elements e)) \<Longrightarrow> attr_at (move_before r i s) j k = attr_at s j k"
  by (simp_all add: attr_at_top move_last_frame(1)[OF wf e] move_before_frame(1)[OF wf e])

subsection \<open>The effect of hideAndRemove\<close>

lemma hideAndRemove_effect:
  assumes wf: "well_formed s" and e: "node_at s el = Some e"
    and par: "el \<in> set (inner_ids (roots s))"
  shows "\<exists>s' e'. hideAndRemove env el s = Done s' \<and> well_formed s' \<and>
      node_at s' el = Some e' \<and> map eid (elements e') = map eid (elements e) \<and>
      (\<forall>m\<in>set (descendants e'). is_input m \<longrightarrow> getAttribute m ''disabled'' = Some []) \<and>
      ''merge-remove-item'' \<in> set (classList e') \<and>
      (\<forall>j k. k \<noteq> ''disabled'' \<and> k \<noteq> ''style'' \<and> (k \<noteq> ''class'' \<or> (j \<noteq> el \<and> j \<noteq> fresh s)) \<longrightarrow>
          attr_at s' j k = attr_at s j k) \<and>
      set (inner_ids (roots s)) \<subseteq> set (inner_ids (roots s'))"
proof -
  define w where "w = fresh s"
  define s1 where "s1 = disable_inputs el s"
  define c where "c = createElement ''div'' s1"
  define s2 where "s2 = setAttribute w ''class'' ''merge-remove-wrapper'' c"
  define s3 where "s3 = move_before el w s2"
  define s4 where "s4 = move_last w el s3"
  define s5 where "s5 = modify el (classList_add ''merge-remove-item'') s4"
  define s6 where "s6 = style_height env w (px (clientHeight env w)) s5"
  define s7 where "s7 = setTimeout (RemoveFade w (fadeDuration env el) (slideDuration env el)) (Some 10) s6"
  define W where "W = Elem w ''div'' [(''class'', ''merge-remove-wrapper'')] []"
  note dp = disable_inputs_props[OF wf e]
  have wf1: "well_formed s1" and f1: "fresh s1 = w" and in1: "inner_ids (roots s1) = inner_ids (roots s)"
    using dp(1,2,3) by (simp_all add: s1_def w_def)
  obtain e1 where n1: "node_at s1 el = Some e1" and ids1: "map eid (elements e1) = map eid (elements e)"
    and el1: "is_elem e1"
    and dis1: "\<forall>m\<in>set (descendants e1). is_input m \<longrightarrow> getAttribute m ''disabled'' = Some []"
    using dp(4) unfolding s1_def by blast
  have a1: "attr_at s1 j k = attr_at s j k" if "k \<noteq> ''disabled''" for j k
    unfolding s1_def by (rule dp(5)[OF that])
  have e1F: "e1 \<in> set (all_elements (roots s1))" "eid e1 = el" using node_at_in[OF n1] by simp_all
  have wfresh: "w \<notin> set (forest_ids (roots s1))" using wf1 f1 by (auto simp: well_formed_alt)
  have w_e1: "w \<notin> set (map eid (elements e1))" using wfresh all_elements_trans(2)[OF e1F(1)] by blast
  have el_w: "el \<noteq> w" using w_e1 self_in_ids[OF n1] by auto
  have d1: "distinct (map eid (elements e1))"
    using subtree_distinct[OF _ e1F(1)] wf1 by (simp add: well_formed_alt)
  have el_kids: "el \<notin> set (forest_ids (kids e1))"
    using d1 el1 e1F(2) by (cases e1) (simp_all add: ids_Elem del: elements.simps)
  text \<open>The wrapper is created.\<close>
  have wfc: "well_formed c" unfolding c_def by (rule wf_createElement[OF wf1])
  have as: "attr_only (set_attr ''class'' ''merge-remove-wrapper'')" by simp
  have wf2: "well_formed s2" unfolding s2_def setAttribute_def by (rule wf_modify[OF as wfc])
  have nc: "node_at c j = (if j = w then Some (Elem w ''div'' [] []) else node_at s1 j)" for j
    unfolding c_def node_at_createElement[OF wf1] f1 by simp
  have n2: "node_at s2 el = Some e1"
    unfolding s2_def setAttribute_def node_at_modify[OF as wfc] nc using el_w n1
    by (simp add: upd_noop(1)[OF w_e1])
  have n2w: "node_at s2 w = Some W"
    unfolding s2_def setAttribute_def node_at_modify[OF as wfc] nc by (simp add: W_def)
  have in2: "inner_ids (roots s2) = inner_ids (roots s)"
    using in1
    by (simp add: s2_def setAttribute_def modify_frame(2)[OF as wfc] c_def[symmetric])
      (simp add: c_def createElement_frame(2)[OF wf1])
  have a2: "attr_at s2 j k = attr_at s j k"
    if "k \<noteq> ''disabled''" "k \<noteq> ''class'' \<or> j \<noteq> w" for j k
  proof -
    have "attr_at s w k = None"
      using wfresh node_at_ids[of s w] dp(1) wf
      by (auto simp: attr_at_def well_formed_alt w_def split: option.splits)
    moreover have "attr_at s2 j k = attr_at c j k"
      using that(2) by (auto simp add: s2_def attr_at_setAttribute[OF wfc])
    moreover have "attr_at c j k = (if j = w then None else attr_at s1 j k)"
      by (simp add: c_def attr_at_createElement[OF wf1] f1)
    ultimately show ?thesis using a1[OF that(1)] by simp
  qed
  have par2: "el \<in> set (inner_ids (roots s2))" using par in2 by simp
  text \<open>The wrapper goes before the element, and the element into the wrapper.\<close>
  have elW: "el \<notin> set (map eid (elements W))" using el_w by (simp add: W_def)
  note mb = move_before_props[OF wf2 n2w par2 elW]
  note mbf = move_before_frame[OF wf2 n2w par2 elW]
  have wf3: "well_formed s3" unfolding s3_def by (rule mb(1))
  have n3w: "node_at s3 w = Some W" using mb(2)[of W] by (simp add: s3_def W_def)
  have n3: "node_at s3 el = Some e1"
    using mb(3)[OF n2 elW[unfolded W_def, folded W_def]]
    by (simp add: s3_def prune_noop(1)[OF w_e1] ins_noop_kids[OF el_kids])
  have a3: "attr_at s3 j k = attr_at s2 j k" for j k
    unfolding s3_def by (rule attr_at_moves(2)[OF wf2 n2w par2 elW])
  have in3: "set (inner_ids (roots s2)) \<subseteq> set (inner_ids (roots s3))"
    using mbf(2) by (auto simp: s3_def)
  note ml = move_last_props[OF wf3 n3 n3w w_e1]
  note mlf = move_last_frame[OF wf3 n3 n3w w_e1]
  have wf4: "well_formed s4" unfolding s4_def by (rule ml(1))
  have n4: "node_at s4 el = Some e1" using ml(3)[OF elements_self[OF el1]] e1F(2) by (simp add: s4_def)
  have a4: "attr_at s4 j k = attr_at s3 j k" for j k
    unfolding s4_def by (rule attr_at_moves(1)[OF wf3 n3 n3w w_e1])
  have in4: "set (inner_ids (roots s3)) \<subseteq> set (inner_ids (roots s4))"
    using mlf(2) by (auto simp: s4_def)
  text \<open>The element is marked and the wrapper gets its height.\<close>
  have ac: "attr_only (classList_add ''merge-remove-item'')" by simp
  note mk = marked_node[OF wf4 n4 ac]
  have wf5: "well_formed s5" unfolding s5_def by (rule mk(1))
  have n5: "node_at s5 el = Some (classList_add ''merge-remove-item'' e1)" unfolding s5_def by (rule mk(2))
  have a5: "attr_at s5 j k = attr_at s4 j k" if "k \<noteq> ''class'' \<or> j \<noteq> el" for j k
    unfolding s5_def by (rule attr_at_classList_add[OF wf4 that])
  have in5: "inner_ids (roots s5) = inner_ids (roots s4)"
    unfolding s5_def by (rule modify_frame(2)[OF ac wf4])
  have ah: "attr_only (\<lambda>n. set_attr ''style'' (styleHeight env (getAttribute n ''style'') (px (clientHeight env w))) n)"
    by simp
  have wf6: "well_formed s6" unfolding s6_def style_height_def by (rule wf_modify[OF ah wf5])
  have w_e5: "w \<notin> set (map eid (elements (classList_add ''merge-remove-item'' e1)))"
    using w_e1 mk(4) by simp
  have n6: "node_at s6 el = Some (classList_add ''merge-remove-item'' e1)"
    unfolding s6_def style_height_def node_at_modify[OF ah wf5] n5 by (simp add: upd_noop(1)[OF w_e5])
  have a6: "attr_at s6 j k = attr_at s5 j k" if "k \<noteq> ''style''" for j k
    unfolding s6_def by (rule attr_at_style[OF wf5 that])
  have in6: "inner_ids (roots s6) = inner_ids (roots s5)"
    unfolding s6_def style_height_def by (rule modify_frame(2)[OF ah wf5])
  have run: "hideAndRemove env el s = Done s7"
  proof -
    have "parent_of el (roots s2) \<noteq> None" using par2 parent_of_iff[of el "roots s2"] by blast
    then obtain p where p: "parent_of el (roots s2) = Some p" by blast
    have p': "parent_of el (roots (setAttribute (fresh s) ''class'' ''merge-remove-wrapper''
        (createElement ''div'' (disable_inputs el s)))) = Some p"
      using p by (simp add: s2_def c_def s1_def w_def)
    show ?thesis unfolding hideAndRemove_def
      by (simp add: e Let_def p' s7_def s6_def s5_def s4_def s3_def s2_def c_def s1_def w_def)
  qed
  have wf7: "well_formed s7" using wf6 by (simp add: s7_def)
  have n7: "node_at s7 el = Some (classList_add ''merge-remove-item'' e1)" using n6 by (simp add: s7_def)
  have d7: "\<forall>m\<in>set (descendants (classList_add ''merge-remove-item'' e1)).
      is_input m \<longrightarrow> getAttribute m ''disabled'' = Some []"
    using dis1 mk(3) by (simp add: descendants_def)
  have c7: "''merge-remove-item'' \<in> set (classList (classList_add ''merge-remove-item'' e1))"
    using classList_add_tokens[OF el1, of "''merge-remove-item''"] remove_item_token by simp
  have a7: "attr_at s7 j k = attr_at s j k"
    if "k \<noteq> ''disabled'' \<and> k \<noteq> ''style'' \<and> (k \<noteq> ''class'' \<or> (j \<noteq> el \<and> j \<noteq> fresh s))" for j k
  proof -
    have "attr_at s7 j k = attr_at s6 j k" by (simp add: s7_def attr_at_def)
    also have "\<dots> = attr_at s5 j k" using that by (intro a6) simp
    also have "\<dots> = attr_at s4 j k" using that by (intro a5) blast
    also have "\<dots> = attr_at s2 j k" by (simp add: a4 a3)
    also have "\<dots> = attr_at s j k" using that by (intro a2) (auto simp: w_def)
    finally show ?thesis .
  qed
  have in7: "set (inner_ids (roots s)) \<subseteq> set (inner_ids (roots s7))"
    using in3 in4 by (simp add: s7_def in6 in5 in2)
  have i7: "map eid (elements (classList_add ''merge-remove-item'' e1)) = map eid (elements e)"
    using mk(4) ids1 by simp
  show ?thesis using run wf7 n7 i7 d7 c7 a7 in7 by blast
qed

subsection \<open>The removal pass of a list\<close>

lemma hideAndRemove_fresh:
  "hideAndRemove env el s = Done s' \<Longrightarrow> fresh s' = Suc (fresh s)"
  by (auto simp: hideAndRemove_def Let_def split: option.splits)

lemma removing_absent: "node_at s j = None \<Longrightarrow> \<not> removing s j"
  by (simp add: removing_def)

lemma hideAndRemove_step:
  assumes wf: "well_formed s" and par: "el \<in> set (inner_ids (roots s))"
  shows "\<exists>s'. hideAndRemove env el s = Done s' \<and> well_formed s' \<and>
      (\<forall>j. mergeListItem s' j = mergeListItem s j) \<and>
      set (inner_ids (roots s)) \<subseteq> set (inner_ids (roots s')) \<and>
      (\<forall>j. removing s j \<longrightarrow> removing s' j) \<and> removing s' el"
proof -
  have "el \<in> set (forest_ids (roots s))" using par inner_subset by blast
  then obtain e where e: "node_at s el = Some e" using node_at_ids[of s el] by auto
  obtain s' e' where r: "hideAndRemove env el s = Done s'" "well_formed s'" "node_at s' el = Some e'"
    "''merge-remove-item'' \<in> set (classList e')"
    "\<forall>j k. k \<noteq> ''disabled'' \<and> k \<noteq> ''style'' \<and> (k \<noteq> ''class'' \<or> (j \<noteq> el \<and> j \<noteq> fresh s)) \<longrightarrow>
          attr_at s' j k = attr_at s j k"
    "set (inner_ids (roots s)) \<subseteq> set (inner_ids (roots s'))"
    using hideAndRemove_effect[OF wf e par, of env] by (elim exE conjE) (rule that, assumption+)
  have key: "mergeListItem s' j = mergeListItem s j" for j
    unfolding mergeListItem_attr using r(5) by simp
  have rel: "removing s' el" using r(3,4) by (simp add: removing_def)
  have nf: "node_at s (fresh s) = None"
    using wf node_at_ids[of s "fresh s"] by (auto simp: well_formed_alt)
  have mono: "removing s' j" if "removing s j" for j
  proof (cases "j = el")
    case True
    then show ?thesis using rel by simp
  next
    case False
    have "j \<noteq> fresh s" using that removing_absent[OF nf] by auto
    then have "attr_at s' j ''class'' = attr_at s j ''class''" using r(5) False by simp
    then show ?thesis using that by (simp add: removing_attr)
  qed
  show ?thesis using r(1,2,6) key rel mono by (intro exI[of _ s']) simp
qed

lemma removal_pass:
  assumes "well_formed s" "set items \<subseteq> set (inner_ids (roots s))"
  shows "\<exists>s1. forEach (removeUnmatched env news) items s = Done s1 \<and> well_formed s1 \<and>
      (\<forall>j. mergeListItem s1 j = mergeListItem s j) \<and>
      set (inner_ids (roots s)) \<subseteq> set (inner_ids (roots s1)) \<and>
      (\<forall>j. removing s j \<longrightarrow> removing s1 j) \<and>
      (\<forall>t\<in>set items. find (\<lambda>item. mergeListItem s item = mergeListItem s t) news = None \<longrightarrow>
         removing s1 t) \<and>
      now s1 = now s \<and>
      timers s1 = timers s @
        map (\<lambda>(w, t). (now s + 10, RemoveFade w (fadeDuration env t) (slideDuration env t)))
          (enumerate (fresh s)
             (filter (\<lambda>t. find (\<lambda>item. mergeListItem s item = mergeListItem s t) news = None) items)) \<and>
      fresh s1 = fresh s +
        length (filter (\<lambda>t. find (\<lambda>item. mergeListItem s item = mergeListItem s t) news = None) items)"
  using assms
proof (induction items arbitrary: s)
  case Nil
  then show ?case by simp
next
  case (Cons t items)
  let ?U = "\<lambda>s t. find (\<lambda>item. mergeListItem s item = mergeListItem s t) news = None"
  show ?case
  proof (cases "?U s t")
    case True
    have tin: "t \<in> set (inner_ids (roots s))" using Cons(3) by simp
    obtain s' where h: "hideAndRemove env t s = Done s'" "well_formed s'"
      "\<forall>j. mergeListItem s' j = mergeListItem s j"
      "set (inner_ids (roots s)) \<subseteq> set (inner_ids (roots s'))"
      "\<forall>j. removing s j \<longrightarrow> removing s' j" "removing s' t"
      using hideAndRemove_step[OF Cons(2) tin, of env] by (elim exE conjE) (rule that, assumption+)
    have sub: "set items \<subseteq> set (inner_ids (roots s'))" using Cons(3) h(4) by auto
    note tm = hideAndRemove_timers[OF h(1)] hideAndRemove_fresh[OF h(1)]
    obtain s1 where r: "forEach (removeUnmatched env news) items s' = Done s1" "well_formed s1"
      "\<forall>j. mergeListItem s1 j = mergeListItem s' j"
      "set (inner_ids (roots s')) \<subseteq> set (inner_ids (roots s1))"
      "\<forall>j. removing s' j \<longrightarrow> removing s1 j"
      "\<forall>t\<in>set items. ?U s' t \<longrightarrow> removing s1 t"
      "now s1 = now s'"
      "timers s1 = timers s' @
        map (\<lambda>(w, t). (now s' + 10, RemoveFade w (fadeDuration env t) (slideDuration env t)))
          (enumerate (fresh s') (filter (?U s') items))"
      "fresh s1 = fresh s' + length (filter (?U s') items)"
      using Cons(1)[OF h(2) sub] by (elim exE conjE) (rule that, assumption+)
    have run: "forEach (removeUnmatched env news) (t # items) s = Done s1"
      using True h(1) r(1) by (simp add: removeUnmatched_def)
    have c3: "\<forall>j. mergeListItem s1 j = mergeListItem s j" using r(3) h(3) by simp
    have c4: "set (inner_ids (roots s)) \<subseteq> set (inner_ids (roots s1))" using r(4) h(4) by blast
    have c5: "\<forall>j. removing s j \<longrightarrow> removing s1 j" using r(5) h(5) by blast
    have c6: "\<forall>x\<in>set (t # items). ?U s x \<longrightarrow> removing s1 x"
      using r(5,6) h(6) by (simp add: h(3))
    have c7: "now s1 = now s" using r(7) tm by simp
    have c8: "timers s1 = timers s @
        map (\<lambda>(w, t). (now s + 10, RemoveFade w (fadeDuration env t) (slideDuration env t)))
          (enumerate (fresh s) (filter (?U s) (t # items)))"
      unfolding r(8) using True tm by (simp add: h(3))
    have c9: "fresh s1 = fresh s + length (filter (?U s) (t # items))"
      unfolding r(9) using True tm by (simp add: h(3))
    show ?thesis using run r(2) c3 c4 c5 c6 c7 c8 c9 by (intro exI[of _ s1]) simp
  next
    case False
    have sub: "set items \<subseteq> set (inner_ids (roots s))" using Cons(3) by simp
    obtain s1 where r: "forEach (removeUnmatched env news) items s = Done s1" "well_formed s1"
      "\<forall>j. mergeListItem s1 j = mergeListItem s j"
      "set (inner_ids (roots s)) \<subseteq> set (inner_ids (roots s1))"
      "\<forall>j. removing s j \<longrightarrow> removing s1 j"
      "\<forall>t\<in>set items. ?U s t \<longrightarrow> removing s1 t"
      "now s1 = now s"
      "timers s1 = timers s @
        map (\<lambda>(w, t). (now s + 10, RemoveFade w (fadeDuration env t) (slideDuration env t)))
          (enumerate (fresh s) (filter (?U s) items))"
      "fresh s1 = fresh s + length (filter (?U s) items)"
      using Cons(1)[OF Cons(2) sub] by (elim exE conjE) (rule that, assumption+)
    have run: "forEach (removeUnmatched env news) (t # items) s = Done s1"
      using False r(1) by (auto simp add: removeUnmatched_def split: option.splits)
    have c6: "\<forall>x\<in>set (t # items). ?U s x \<longrightarrow> removing s1 x" using r(6) False by auto
    have c8: "timers s1 = timers s @
        map (\<lambda>(w, t). (now s + 10, RemoveFade w (fadeDuration env t) (slideDuration env t)))
          (enumerate (fresh s) (filter (?U s) (t # items)))"
      unfolding r(8) using False by auto
    have c9: "fresh s1 = fresh s + length (filter (?U s) (t # items))"
      unfolding r(9) using False by auto
    show ?thesis using run r(2,3,4,5,7) c6 c8 c9 by (intro exI[of _ s1]) simp
  qed
qed

lemma query_inner:
  assumes "node_at s root = Some rn"
  shows "set (querySelectorAll sel root s) \<subseteq> set (inner_ids (roots s))"
proof -
  have "rn \<in> set (all_elements (roots s))" using node_at_in[OF assms] by simp
  then have "set (forest_ids (kids rn)) \<subseteq> set (inner_ids (roots s))" by (rule kids_inner_forest)
  moreover have "set (querySelectorAll sel root s) \<subseteq> set (forest_ids (kids rn))"
    using assms by (auto simp: querySelectorAll_def descendants_def forest_ids_def all_elements_def)
  ultimately show ?thesis by blast
qed

lemma live_not_removing:
  assumes "well_formed s" "t \<in> set (querySelectorAll live_item root s)"
  shows "\<not> removing s t"
proof -
  have "node_at s root \<noteq> None" using assms(2) by (cases "node_at s root") (simp_all add: querySelectorAll_def)
  then obtain rn where rn: "node_at s root = Some rn" by blast
  obtain m where m: "m \<in> set (descendants rn)" "live_item m" "eid m = t"
    using assms(2) rn by (auto simp: querySelectorAll_def)
  have "m \<in> set (all_elements (roots s))" using descendant_in_forest[OF rn[unfolded node_at_def] m(1)] .
  then have "node_at s t = Some m" using node_at_wf[OF assms(1)] m(3) by blast
  then show ?thesis using m(2) by (simp add: removing_def live_item_def)
qed

subsection \<open>Fragments with the same markup\<close>

lemma serialize_top:
  assumes "serialize a = serialize b"
  shows "is_elem a = is_elem b" "getAttribute a k = getAttribute b k" "tag a = tag b"
    "map serialize (kids a) = map serialize (kids b)" "attrs a = attrs b"
  using assms by (cases a; cases b; simp add: getAttribute_def)+

lemma serialize_preds:
  assumes "serialize a = serialize b"
  shows "has_attr k a = has_attr k b" "attr_is k v a = attr_is k v b" "mergeCache a = mergeCache b"
    "classList a = classList b" "live_item a = live_item b"
  using serialize_top(2)[OF assms]
  by (simp_all add: has_attr_def attr_is_def mergeCache_def classList_def live_item_def)

lemma serialize_elements:
  "serialize n = serialize m \<Longrightarrow> map serialize (elements n) = map serialize (elements m)"
  "map serialize ks = map serialize ks' \<Longrightarrow>
     map serialize (all_elements ks) = map serialize (all_elements ks')"
proof (induction n and ks arbitrary: m and ks' rule: node_forest_induct)
  case (Text s)
  then show ?case by (cases m) simp_all
next
  case (Elem j t a ks)
  then obtain j' ks' where m: "m = Elem j' t a ks'" "map serialize ks = map serialize ks'"
    by (cases m) simp_all
  have "map serialize (all_elements ks) = map serialize (all_elements ks')" using Elem(1)[OF m(2)] .
  then show ?case unfolding m(1) elements_Elem using m(2) by simp
next
  case Nil
  then show ?case by simp
next
  case (Cons k ks)
  then obtain k' ks2 where c: "ks' = k' # ks2" "serialize k = serialize k'"
    "map serialize ks = map serialize ks2" by (cases ks') auto
  show ?case unfolding c(1) using Cons(1)[OF c(2)] Cons(2)[OF c(3)] by simp
qed

lemma serialize_descendants:
  assumes "map serialize (kids a) = map serialize (kids b)"
  shows "map serialize (descendants a) = map serialize (descendants b)"
  using serialize_elements(2)[OF assms] by (simp add: descendants_def all_elements_def)

lemma filter_corr:
  assumes "map g xs = map g ys" "\<And>a b. g a = g b \<Longrightarrow> P a = P b"
  shows "map g (filter P xs) = map g (filter P ys)"
  using assms(1)
proof (induction xs arbitrary: ys)
  case Nil
  then show ?case by simp
next
  case (Cons x xs)
  then obtain y ys' where y: "ys = y # ys'" "g x = g y" "map g xs = map g ys'" by (cases ys) auto
  show ?case unfolding y(1) using Cons(1)[OF y(3)] assms(2)[OF y(2)] y(2) by simp
qed

lemma find_counterpart:
  assumes "map serialize xs = map serialize ys" "x \<in> set xs" "getAttribute x k = Some v"
    and "distinct (map (\<lambda>n. getAttribute n k) (filter (has_attr k) xs))"
  shows "\<exists>y. find (attr_is k v) ys = Some y \<and> serialize y = serialize x"
  using assms
proof (induction xs arbitrary: ys)
  case Nil
  then show ?case by simp
next
  case (Cons a xs)
  then obtain b ys' where y: "ys = b # ys'" "serialize a = serialize b"
    "map serialize xs = map serialize ys'" by (cases ys) auto
  show ?case
  proof (cases "getAttribute a k = Some v")
    case True
    have "x = a"
    proof (rule ccontr)
      assume "x \<noteq> a"
      then have xin: "x \<in> set xs" using Cons(3) by simp
      have hx: "has_attr k x" "has_attr k a" using Cons(4) True by (simp_all add: has_attr_def)
      have eq: "getAttribute x k = getAttribute a k" using Cons(4) True by simp
      have "getAttribute a k \<notin> (\<lambda>n. getAttribute n k) ` set (filter (has_attr k) xs)"
        using Cons(5) hx(2) by simp
      moreover have "x \<in> set (filter (has_attr k) xs)" using xin hx(1) by simp
      then have "getAttribute x k \<in> (\<lambda>n. getAttribute n k) ` set (filter (has_attr k) xs)"
        by (rule imageI)
      ultimately show False unfolding eq by blast
    qed
    moreover have "attr_is k v b" using True serialize_top(2)[OF y(2)] by (simp add: attr_is_def)
    ultimately show ?thesis using y(1,2) by simp
  next
    case False
    then have xin: "x \<in> set xs" using Cons(3,4) by auto
    have d: "distinct (map (\<lambda>n. getAttribute n k) (filter (has_attr k) xs))"
      using Cons(5) by (simp split: if_splits)
    have "\<not> attr_is k v b" using False serialize_top(2)[OF y(2)] by (simp add: attr_is_def)
    then show ?thesis using Cons(1)[OF y(3) xin Cons(4) d] y(1) by simp
  qed
qed

lemma put_attr_same: "map_of a k = Some v \<Longrightarrow> put_attr k v a = a"
  by (induction a) (auto split: if_splits)

lemma set_attr_same: "getAttribute n k = Some v \<Longrightarrow> set_attr k v n = n"
  by (cases n) (simp_all add: getAttribute_def put_attr_same)

lemma upd_fix:
  "(\<And>m. m \<in> set (elements n) \<Longrightarrow> has_id i m \<Longrightarrow> f m = m) \<Longrightarrow> upd i f n = n"
  "(\<And>m. m \<in> set (all_elements ks) \<Longrightarrow> has_id i m \<Longrightarrow> f m = m) \<Longrightarrow> map (upd i f) ks = ks"
proof (induction n and ks rule: node_forest_induct)
  case (Text s)
  then show ?case by simp
next
  case (Elem j t a ks)
  show ?case
  proof (cases "j = i")
    case True
    have "f (Elem j t a ks) = Elem j t a ks" by (rule Elem(2)) (simp_all add: True)
    then show ?thesis using True by simp
  next
    case False
    have "map (upd i f) ks = ks"
    proof (rule Elem(1))
      fix m assume "m \<in> set (all_elements ks)" "has_id i m"
      then show "f m = m" using Elem(2)[of m] by (simp add: elements_Elem del: elements.simps)
    qed
    then show ?thesis using False by simp
  qed
next
  case Nil
  then show ?case by simp
next
  case (Cons k ks)
  have "upd i f k = k" by (rule Cons(1)) (use Cons(3) in simp)
  moreover have "map (upd i f) ks = ks" by (rule Cons(2)) (use Cons(3) in simp)
  ultimately show ?case by simp
qed

lemma modify_fix:
  assumes "well_formed s" "node_at s i = Some e" "f e = e"
  shows "modify i f s = s"
proof -
  have "map (upd i f) (roots s) = roots s"
  proof (rule upd_fix(2))
    fix m assume m: "m \<in> set (all_elements (roots s))" "has_id i m"
    have "is_elem m" using m(1) all_elements_is_elem by blast
    then have "eid m = i" using m(2) by (simp add: has_id_eid)
    then have "node_at s i = Some m" using node_at_wf[OF assms(1) m(1)] by simp
    then show "f m = m" using assms(2,3) by simp
  qed
  then show ?thesis by (simp add: modify_def)
qed

lemma forEach_noop: "(\<And>x. x \<in> set xs \<Longrightarrow> f x s = Done s) \<Longrightarrow> forEach f xs s = Done s"
  by (induction xs) simp_all

lemma mergeItems_noop:
  "(\<And>i n. n \<in> set news \<Longrightarrow> mergeItem env tlist i n items s = Done (items, s)) \<Longrightarrow>
   mergeItems env tlist i news items s = Done s"
  by (induction news arbitrary: i) simp_all

lemma copy_attributes_noop:
  assumes "well_formed s" "node_at s (eid te) = Some te" "list_all plain_name names"
    "\<And>k. k \<in> set names \<Longrightarrow> getAttribute ne k \<noteq> None \<and> getAttribute te k = getAttribute ne k"
  shows "copy_attributes (Some te) ne names s = Done s"
  using assms(3,4)
proof (induction names)
  case Nil
  then show ?case by simp
next
  case (Cons k names)
  obtain v where v: "getAttribute ne k = Some v" "getAttribute te k = Some v"
    using Cons(3)[of k] by auto
  have "set_attr k v te = te" by (rule set_attr_same[OF v(2)])
  then have "setAttribute (eid te) k v s = s"
    unfolding setAttribute_def by (rule modify_fix[OF assms(1,2)])
  then show ?case using Cons v(1) by simp
qed

subsection \<open>Merging a fragment with the same markup\<close>

lemma query_nodes:
  assumes wf: "well_formed s" and r: "node_at s root = Some rn"
    and x: "x \<in> set (querySelectorAll sel root s)"
  shows "\<exists>m. m \<in> set (descendants rn) \<and> sel m \<and> eid m = x \<and> node_at s x = Some m"
proof -
  obtain m where m: "m \<in> set (descendants rn)" "sel m" "eid m = x"
    using x r by (auto simp: querySelectorAll_def)
  have "m \<in> set (all_elements (roots s))" using descendant_in_forest[OF r[unfolded node_at_def] m(1)] .
  then have "node_at s x = Some m" using node_at_wf[OF wf] m(3) by blast
  then show ?thesis using m by blast
qed

lemma descendants_nested:
  assumes "m \<in> set (descendants n)"
  shows "set (descendants m) \<subseteq> set (descendants n)"
proof -
  have "m \<in> set (all_elements (kids n))" using assms by (simp add: descendants_def all_elements_def)
  then have "set (elements m) \<subseteq> set (all_elements (kids n))" by (rule all_elements_trans(1))
  then show ?thesis using descendants_subset[of m] by (auto simp: descendants_def all_elements_def)
qed

lemma counterpart:
  assumes wf: "well_formed s" and N: "node_at s newContent = Some N"
    and T: "node_at s targetContainer = Some T"
    and same: "innerHTML N = innerHTML T"
    and d: "distinct (marker_keys k N)"
    and x: "x \<in> set (querySelectorAll (has_attr k) newContent s)"
  shows "\<exists>ne te v. node_at s x = Some ne \<and> ne \<in> set (descendants N) \<and> getAttribute ne k = Some v \<and>
      querySelector (attr_is k v) targetContainer s = Some te \<and> serialize te = serialize ne \<and>
      node_at s (eid te) = Some te"
proof -
  obtain ne where ne: "ne \<in> set (descendants N)" "has_attr k ne" "node_at s x = Some ne"
    using query_nodes[OF wf N x] by blast
  obtain v where v: "getAttribute ne k = Some v" using ne(2) by (auto simp: has_attr_def)
  have corr: "map serialize (descendants N) = map serialize (descendants T)"
    by (rule serialize_descendants) (use same in \<open>simp add: innerHTML_def\<close>)
  obtain te where te: "find (attr_is k v) (descendants T) = Some te" "serialize te = serialize ne"
    using find_counterpart[OF corr ne(1) v d[unfolded marker_keys_def]] by blast
  have q: "querySelector (attr_is k v) targetContainer s = Some te"
    using te(1) T by (simp add: querySelector_def)
  have "node_at s (eid te) = Some te" by (rule querySelector_node_at[OF wf q])
  then show ?thesis using ne(1,3) v q te(2) by blast
qed

lemma steady_node:
  assumes "steady N" "m \<in> set (descendants N)"
  shows "has_attr ''data-merge'' m \<Longrightarrow>
           truthy (mergeCache m) \<and> css_plain (to_string (getAttribute m ''data-merge''))"
    "has_attr ''data-merge-attributes'' m \<Longrightarrow>
           css_plain (to_string (getAttribute m ''data-merge-attributes'')) \<and>
           list_all plain_name (map fst (attrs m))"
    "has_attr ''data-merge-list'' m \<Longrightarrow>
           css_plain (to_string (getAttribute m ''data-merge-list'')) \<and>
           distinct (marker_keys ''data-merge-list-item'' m)"
    "has_attr ''data-merge-list-item'' m \<Longrightarrow>
           truthy (mergeCache m) \<and> ''merge-remove-item'' \<notin> set (classList m)"
  using assms unfolding steady_def list_all_iff by blast+

lemma content_step:
  assumes wf: "well_formed s" and N: "node_at s newContent = Some N"
    and T: "node_at s targetContainer = Some T"
    and same: "innerHTML N = innerHTML T" and st: "steady N"
    and x: "x \<in> set (querySelectorAll (has_attr ''data-merge'') newContent s)"
  shows "mergeContent targetContainer x s = Done s"
proof -
  have d: "distinct (marker_keys ''data-merge'' N)" using st by (simp add: steady_def)
  obtain ne te v where c: "node_at s x = Some ne" "ne \<in> set (descendants N)"
    "getAttribute ne ''data-merge'' = Some v"
    "querySelector (attr_is ''data-merge'' v) targetContainer s = Some te" "serialize te = serialize ne"
    using counterpart[OF wf N T same d x] by blast
  have h: "has_attr ''data-merge'' ne" using c(3) by (simp add: has_attr_def)
  note sn = steady_node(1)[OF st c(2) h]
  have "mergeCache te = mergeCache ne" by (rule serialize_preds(3)[OF c(5)])
  then show ?thesis unfolding mergeContent_def using c(1,3,4) sn by simp
qed

lemma attribute_step:
  assumes wf: "well_formed s" and N: "node_at s newContent = Some N"
    and T: "node_at s targetContainer = Some T"
    and same: "innerHTML N = innerHTML T" and st: "steady N"
    and x: "x \<in> set (querySelectorAll (has_attr ''data-merge-attributes'') newContent s)"
  shows "mergeAttributes targetContainer x s = Done s"
proof -
  have d: "distinct (marker_keys ''data-merge-attributes'' N)" using st by (simp add: steady_def)
  obtain ne te v where c: "node_at s x = Some ne" "ne \<in> set (descendants N)"
    "getAttribute ne ''data-merge-attributes'' = Some v"
    "querySelector (attr_is ''data-merge-attributes'' v) targetContainer s = Some te"
    "serialize te = serialize ne" "node_at s (eid te) = Some te"
    using counterpart[OF wf N T same d x] by blast
  have h: "has_attr ''data-merge-attributes'' ne" using c(3) by (simp add: has_attr_def)
  note sn = steady_node(2)[OF st c(2) h]
  have "copy_attributes (Some te) ne (map fst (attrs ne)) s = Done s"
  proof (rule copy_attributes_noop[OF wf c(6)])
    show "list_all plain_name (map fst (attrs ne))" using sn by simp
    fix k assume "k \<in> set (map fst (attrs ne))"
    then have "getAttribute ne k \<noteq> None" by (simp add: getAttribute_def map_of_eq_None_iff)
    then show "getAttribute ne k \<noteq> None \<and> getAttribute te k = getAttribute ne k"
      using serialize_top(2)[OF c(5)] by simp
  qed
  then show ?thesis unfolding mergeAttributes_def using c(1,3,4) sn by simp
qed

lemma map_counterpart:
  assumes "map g xs = map g ys" "y \<in> set ys"
  shows "\<exists>x\<in>set xs. g x = g y"
proof -
  have "g y \<in> set (map g ys)" using assms(2) by simp
  then have "g y \<in> set (map g xs)" using assms(1) by simp
  then show ?thesis by auto
qed

lemma list_step:
  assumes wf: "well_formed s" and N: "node_at s newContent = Some N"
    and T: "node_at s targetContainer = Some T"
    and same: "innerHTML N = innerHTML T" and st: "steady N"
    and x: "x \<in> set (querySelectorAll (has_attr ''data-merge-list'') newContent s)"
  shows "mergeList env targetContainer x s = Done s"
proof -
  let ?item = "''data-merge-list-item''"
  have d: "distinct (marker_keys ''data-merge-list'' N)" using st by (simp add: steady_def)
  obtain nl tlist v where c: "node_at s x = Some nl" "nl \<in> set (descendants N)"
    "getAttribute nl ''data-merge-list'' = Some v"
    "querySelector (attr_is ''data-merge-list'' v) targetContainer s = Some tlist"
    "serialize tlist = serialize nl" "node_at s (eid tlist) = Some tlist"
    using counterpart[OF wf N T same d x] by blast
  have h: "has_attr ''data-merge-list'' nl" using c(3) by (simp add: has_attr_def)
  note sn = steady_node(3)[OF st c(2) h]
  let ?xs = "filter (has_attr ?item) (descendants nl)"
  let ?ys = "filter (has_attr ?item) (descendants tlist)"
  have corr2: "map serialize (descendants nl) = map serialize (descendants tlist)"
    by (rule serialize_descendants) (rule serialize_top(4)[OF c(5)[symmetric]])
  have corr3: "map serialize ?xs = map serialize ?ys"
    by (rule filter_corr[OF corr2]) (rule serialize_preds(1))
  have news: "querySelectorAll (has_attr ?item) x s = map eid ?xs" using c(1) by (simp add: querySelectorAll_def)
  have olds: "querySelectorAll (has_attr ?item) (eid tlist) s = map eid ?ys"
    using c(6) by (simp add: querySelectorAll_def)
  have at_x: "node_at s (eid m) = Some m" if "m \<in> set (descendants nl)" for m
    using node_at_wf[OF wf descendant_in_forest[OF c(1)[unfolded node_at_def] that]] .
  have at_y: "node_at s (eid m) = Some m" if "m \<in> set (descendants tlist)" for m
    using node_at_wf[OF wf descendant_in_forest[OF c(6)[unfolded node_at_def] that]] .
  have key_x: "mergeListItem s (eid m) = getAttribute m ?item" if "m \<in> set (descendants nl)" for m
    using at_x[OF that] by (simp add: mergeListItem_def)
  have key_y: "mergeListItem s (eid m) = getAttribute m ?item" if "m \<in> set (descendants tlist)" for m
    using at_y[OF that] by (simp add: mergeListItem_def)
  have inN: "set (descendants nl) \<subseteq> set (descendants N)" by (rule descendants_nested[OF c(2)])
  text \<open>No old item is removed.\<close>
  have rem: "removeUnmatched env (map eid ?xs) t s = Done s" if t: "t \<in> set (map eid ?ys)" for t
  proof -
    obtain y where y: "y \<in> set ?ys" "t = eid y" using t by auto
    obtain m where m: "m \<in> set ?xs" "serialize m = serialize y" using map_counterpart[OF corr3 y(1)] by blast
    have "mergeListItem s (eid m) = mergeListItem s t"
      using key_x[of m] key_y[of y] m y serialize_top(2)[OF m(2)] by simp
    moreover have "eid m \<in> eid ` set ?xs" using m(1) by (rule imageI)
    then have "eid m \<in> set (map eid ?xs)" by (simp only: set_map)
    ultimately have "\<exists>z. find (\<lambda>item. mergeListItem s item = mergeListItem s t) (map eid ?xs) = Some z"
      by (intro find_exists[of "eid m"])
    then show ?thesis unfolding removeUnmatched_def by auto
  qed
  have pass: "forEach (removeUnmatched env (map eid ?xs)) (map eid ?ys) s = Done s"
    by (rule forEach_noop) (rule rem)
  text \<open>No old item is being removed.\<close>
  have lv: "live_item y = has_attr ?item y" if y: "y \<in> set (descendants tlist)" for y
  proof (cases "has_attr ?item y")
    case True
    obtain m where m: "m \<in> set (descendants nl)" "serialize m = serialize y"
      using map_counterpart[OF corr2 y] by blast
    have "has_attr ?item m" using True serialize_preds(1)[OF m(2)] by simp
    then have "''merge-remove-item'' \<notin> set (classList m)" using steady_node(4)[OF st] m(1) inN by blast
    then show ?thesis using True serialize_preds(4)[OF m(2)] by (simp add: live_item_def)
  qed (simp add: live_item_def)
  have live: "querySelectorAll live_item (eid tlist) s = map eid ?ys"
    using c(6) lv by (simp add: querySelectorAll_def cong: filter_cong)
  text \<open>Every new item finds its counterpart, with the same token.\<close>
  have item: "mergeItem env (eid tlist) i n (map eid ?ys) s = Done (map eid ?ys, s)"
    if n: "n \<in> set (map eid ?xs)" for i n
  proof -
    obtain m where m: "m \<in> set ?xs" "n = eid m" using n by auto
    have md: "m \<in> set (descendants nl)" "has_attr ?item m" using m(1) by simp_all
    obtain kv where kv: "getAttribute m ?item = Some kv" using md(2) by (auto simp: has_attr_def)
    have dx: "distinct (map (\<lambda>n. getAttribute n ?item) (filter (has_attr ?item) ?xs))"
      using sn by (simp add: marker_keys_def)
    obtain y where y: "find (attr_is ?item kv) ?ys = Some y" "serialize y = serialize m"
      using find_counterpart[OF corr3 m(1) kv dx] by blast
    have yd: "y \<in> set (descendants tlist)" using find_SomeD[OF y(1)] by simp
    have "find (\<lambda>item. mergeListItem s item = mergeListItem s n) (map eid ?ys) =
        map_option eid (find (attr_is ?item kv) ?ys)"
      unfolding find_map
      by (rule arg_cong[of _ _ "map_option eid"], rule find_cong)
        (simp_all add: key_y key_x[OF md(1)] m(2) kv attr_is_def)
    then have f: "find (\<lambda>item. mergeListItem s item = mergeListItem s n) (map eid ?ys) = Some (eid y)"
      using y(1) by simp
    have tok: "mergeCache y = mergeCache m" by (rule serialize_preds(3)[OF y(2)])
    have tr: "truthy (mergeCache m)" using steady_node(4)[OF st] md inN by blast
    show ?thesis unfolding mergeItem_def f using at_x[OF md(1)] at_y[OF yd] tok tr m(2) by simp
  qed
  have loop: "mergeItems env (eid tlist) 0 (map eid ?xs) (map eid ?ys) s = Done s"
    by (rule mergeItems_noop) (rule item)
  show ?thesis unfolding mergeList_def using c(1,3,4) sn
    by (simp add: Let_def news olds pass live loop)
qed

lemma steady_merge:
  assumes wf: "well_formed s" and N: "node_at s newContent = Some N"
    and T: "node_at s targetContainer = Some T"
    and same: "innerHTML N = innerHTML T" and st: "steady N"
  shows "mergeBody env newContent targetContainer s = Done s"
proof -
  have 1: "forEach (mergeContent targetContainer)
      (querySelectorAll (has_attr ''data-merge'') newContent s) s = Done s"
    by (rule forEach_noop) (rule content_step[OF wf N T same st])
  have 2: "forEach (mergeAttributes targetContainer)
      (querySelectorAll (has_attr ''data-merge-attributes'') newContent s) s = Done s"
    by (rule forEach_noop) (rule attribute_step[OF wf N T same st])
  have 3: "forEach (mergeList env targetContainer)
      (querySelectorAll (has_attr ''data-merge-list'') newContent s) s = Done s"
    by (rule forEach_noop) (rule list_step[OF wf N T same st])
  show ?thesis unfolding mergeBody_def by (simp add: 1 2 3)
qed

section \<open>The content pass\<close>




section \<open>The attribute pass\<close>



section \<open>The list pass\<close>

text \<open>
  Claim C6 at a live item with the token \<^verbatim>\<open>t1\<close> whose new version has no token: the list
  pass replaces the content and leaves the token \<^verbatim>\<open>t1\<close> in place, where the content pass
  on the same data overwrites the token.
\<close>

theorem C6_list_item_token_not_restamped:
  "map_option (\<lambda>s'. map_option (\<lambda>n. (innerHTML n, mergeCache n)) (node_at s' 3))
     (mergeNodes example_env 10 1 stale_token_page) = Some (Some ([HText ''new''], Some ''t1'')) \<and>
   map_option (\<lambda>s'. map_option (\<lambda>n. (innerHTML n, mergeCache n)) (node_at s' 3))
     (mergeNodes example_env 10 1 stale_content_page) = Some (Some ([HText ''new''], Some ''undefined''))"
  by code_simp

section \<open>Insertion of new list items\<close>



text \<open>
  Claim C9. In a round of the loop for a new item that matches no tracked item and has no
  element child, \<^verbatim>\<open>insertAndReveal\<close> throws (after the insertion, at
  \<^verbatim>\<open>el.firstElementChild.clientHeight\<close>): the round and the loop end with this exception,
  the items after it are not processed, and by C4 the merge reloads the page.
\<close>

theorem C9_childless_insertion_throws:
  assumes wf: "well_formed s"
    and new: "node_at s newListItem = Some e"
    and childless: "find is_elem (kids e) = None"
    and unmatched: "find (\<lambda>item. mergeListItem s item = mergeListItem s newListItem) targetListItems = None"
    and tl: "node_at s targetList \<noteq> None"
  shows "\<exists>x s'. mergeItem env targetList i newListItem targetListItems s = Raised x s' \<and>
           mergeItems env targetList i (newListItem # rest) targetListItems s = Raised x s' \<and>
           x \<noteq> OutsideModel"
proof -
  let ?r = "if i = 0 then insertAndReveal env newListItem targetList AfterBegin 500 s
            else if i \<ge> length targetListItems
            then insertAndReveal env newListItem targetList BeforeEnd 500 s
            else insertAndReveal env newListItem (targetListItems ! i) BeforeBegin 500 s"
  have "\<exists>x s'. ?r = Raised x s' \<and> x \<noteq> OutsideModel"
    using insertAndReveal_childless[OF wf new childless, of AfterBegin targetList env 500]
      insertAndReveal_childless[OF wf new childless, of BeforeEnd targetList env 500]
      insertAndReveal_childless[OF wf new childless, of BeforeBegin "targetListItems ! i" env 500]
      tl by auto
  then obtain x s' where r: "?r = Raised x s'" "x \<noteq> OutsideModel" by blast
  have "mergeItem env targetList i newListItem targetListItems s = Raised x s'"
    unfolding mergeItem_def unmatched using r(1) by (simp del: insertAndReveal_def)
  then show ?thesis using r(2) by simp
qed

theorem C9_childless_insertion_throws_witness:
  "well_formed childless_item_page \<and>
   (\<exists>x s'. mergeItem example_env 2 1 13 [3, 5] childless_item_page = Raised x s' \<and>
      mergeItems example_env 2 1 [13, 14] [3, 5] childless_item_page = Raised x s' \<and>
      x \<noteq> OutsideModel) \<and>
   map_option reloads (mergeNodes example_env 10 1 childless_item_page) = Some 1"
proof -
  let ?e = "Elem 13 ''li'' [(''data-merge-list-item'', ''B''), (''data-merge-cache'', ''1'')] [Text ''b'']"
  have wf: "well_formed childless_item_page" by code_simp
  have h1: "node_at childless_item_page 13 = Some ?e" by code_simp
  have h2: "find is_elem (kids ?e) = None" by code_simp
  have h3: "find (\<lambda>item. mergeListItem childless_item_page item = mergeListItem childless_item_page 13)
              [3, 5] = None" by code_simp
  have h4: "node_at childless_item_page 2 \<noteq> None" by code_simp
  have end_to_end: "map_option reloads (mergeNodes example_env 10 1 childless_item_page) = Some 1"
    by code_simp
  from C9_childless_insertion_throws[OF wf h1 h2 h3 h4, of example_env 1 "[14]"]
  show ?thesis using wf end_to_end by simp
qed

section \<open>The merge as a whole\<close>



section \<open>Missing durations\<close>




section \<open>Animated detach\<close>

text \<open>
  Claim C10, for \<^verbatim>\<open>input\<close> elements. When \<^verbatim>\<open>hideAndRemove\<close> is called on an element that has
  a parent, it returns normally; in the state it returns the element has the same
  descendants as before, every descendant \<^verbatim>\<open>input\<close> element carries the \<^verbatim>\<open>disabled\<close>
  attribute, and the only thing scheduled is the first visual phase, 10 ms later: no phase
  has run yet.
\<close>

theorem C10_inputs_disabled:
  assumes "well_formed s" and "node_at s el = Some e" and "parent_of el (roots s) \<noteq> None"
  shows "\<exists>s' e'. hideAndRemove env el s = Done s' \<and> node_at s' el = Some e' \<and>
      map eid (descendants e') = map eid (descendants e) \<and>
      (\<forall>m\<in>set (descendants e'). is_input m \<longrightarrow> getAttribute m ''disabled'' = Some []) \<and>
      timers s' = timers s @
        [(now s + 10, RemoveFade (fresh s) (fadeDuration env el) (slideDuration env el))]"
proof -
  have par: "el \<in> set (inner_ids (roots s))" using assms(3) parent_of_iff[of el "roots s"] by blast
  obtain s' e' where r: "hideAndRemove env el s = Done s'" "node_at s' el = Some e'"
    "map eid (elements e') = map eid (elements e)"
    "\<forall>m\<in>set (descendants e'). is_input m \<longrightarrow> getAttribute m ''disabled'' = Some []"
    using hideAndRemove_effect[OF assms(1,2) par, of env] by (elim exE conjE) (rule that, assumption+)
  have "is_elem e" "is_elem e'" using node_at_in[OF assms(2)] node_at_in[OF r(2)] by simp_all
  then have "map eid (descendants e') = map eid (descendants e)"
    using arg_cong[OF r(3), of tl] by (simp add: descendants_tl map_tl)
  then show ?thesis using r(1,2,4) hideAndRemove_timers[OF r(1)] by (intro exI[of _ s'] exI[of _ e']) simp
qed

theorem C10_inputs_disabled_witness:
  "well_formed list_page \<and> parent_of 4 (roots list_page) \<noteq> None \<and>
   (\<exists>s' e'. hideAndRemove example_env 4 list_page = Done s' \<and> node_at s' 4 = Some e' \<and>
      map eid (descendants e') = [7, 8] \<and>
      (\<forall>m\<in>set (descendants e'). is_input m \<longrightarrow> getAttribute m ''disabled'' = Some []) \<and>
      timers s' = [(10, RemoveFade 20 None None)])"
proof -
  let ?e = "Elem 4 ''li'' [(''data-merge-list-item'', ''X''), (''data-merge-cache'', ''1'')]
                 [Elem 7 ''input'' [(''name'', ''qty'')] [], Elem 8 ''button'' [] [Text ''remove'']]"
  have wf: "well_formed list_page" by code_simp
  have h1: "node_at list_page 4 = Some ?e" by code_simp
  have h2: "parent_of 4 (roots list_page) \<noteq> None" by code_simp
  have d: "map eid (descendants ?e) = [7, 8]" by code_simp
  have t: "timers list_page = []" "now list_page = 0" "fresh list_page = 20"
    "fadeDuration example_env 4 = None" "slideDuration example_env 4 = None"
    by (simp_all add: list_page_def example_env_def)
  from C10_inputs_disabled[OF wf h1 h2, of example_env]
  show ?thesis using wf h2 unfolding d t by simp
qed

text \<open>
  Claim C10 as stated fails for the other form controls: the code selects \<^verbatim>\<open>input\<close>
  elements only, so the \<^verbatim>\<open>button\<close> inside the removed item of the example page is still
  enabled when \<^verbatim>\<open>hideAndRemove\<close> returns.
\<close>

theorem C10_button_stays_enabled:
  "(case hideAndRemove example_env 4 list_page of
      Done s' \<Rightarrow> map_option (\<lambda>n. map eid (filter enabled_control (descendants n))) (node_at s' 4)
    | Raised x s' \<Rightarrow> None) = Some [8]"
  by code_simp

section \<open>Removal of unmatched list items\<close>



section \<open>Merging a fragment equal to the live container\<close>



end
